(* ===== verification/Prelude.thy ===== *)
theory Prelude
  imports Complex_Main "HOL-Library.Multiset"
begin

text \<open>
  Shared vocabulary of the page-replacement development: the data types that
  several functions of \<open>src/Page_Replacement/page_replacement.c\<close> pass between
  them (the algorithm selector and the \<open>PageRequest\<close> record), the name of the
  free-slot sentinel, the collection \<open>sim_simps\<close> into which the component
  theories put the equations that evaluate their loops, and generic lemmas on
  lists that the component proofs share.
\<close>

named_theorems sim_simps "equations that evaluate the simulation's loops on concrete frames"

section \<open>Shared data of the program\<close>

text \<open>\<open>typedef enum { FIFO, LRU } PageReplacementAlgorithms;\<close> (lines 7--10).\<close>

datatype PageReplacementAlgorithms = FIFO | LRU

text \<open>
  \<open>typedef struct { int id; char hitOrPageFault[3]; } PageRequest;\<close>
  (lines 12--15). The C \<open>int\<close> is an \<open>int\<close>; the label is the string the code
  \<open>strcpy\<close>s into the 3-byte buffer (its size is modelled in the output theory).
\<close>

record page_request =
  req_id :: int
  hitOrPageFault :: string

text \<open>The id the code writes into a slot to mark it free.\<close>

abbreviation FREE :: int where
  "FREE \<equiv> -1"

type_synonym trace = "int list"

section \<open>Generic list lemmas\<close>

lemma filter_replicate_neq [simp]:
  "x \<noteq> y \<Longrightarrow> filter (\<lambda>i. i \<noteq> x) (replicate n y) = replicate n y"
  by (induction n) auto

lemma filter_replicate_eq [simp]:
  "filter (\<lambda>i. i \<noteq> x) (replicate n x) = []"
  by (induction n) auto

text \<open>Replacing one element of a multiset by another, read back from a sum.\<close>

lemma mset_replace_from_sum:
  assumes "a \<in># M" "N + {#a#} = M + {#b#}"
  shows "N = M - {#a#} + {#b#}"
proof -
  have "N = {#b#} + M - {#a#}" using assms(2) by (metis add.commute add_diff_cancel_right')
  also have "\<dots> = {#b#} + (M - {#a#})" using assms(1) by (rule diff_union_single_conv)
  finally show ?thesis by (simp add: add.commute)
qed

end
