(* ===== verification/Queue.thy ===== *)
theory Queue
  imports Prelude
begin

text \<open>
  The hand-written linked queue of \<open>page_replacement.c\<close> (\<open>Node\<close>, \<open>Queue\<close>,
  \<open>NewNode\<close>, \<open>NewQueue\<close>, \<open>Enqueue\<close>, \<open>Dequeue\<close>, \<open>IsQueueEmpty\<close>, lines
  19--24, 31--34, 91--134) on an explicit heap: the nodes are a list indexed by
  address, a pointer is \<open>NULL\<close> or \<open>Ref a\<close>, and the queue record holds the head
  and tail pointers. The abstraction is the list of addresses reached from the
  head by \<open>next\<close> (a \<open>path\<close>, as in the Hoare heap library); \<open>queue_inv\<close> ties the
  tail to the last of them. Every operation is proved against the list
  specification of a queue (enqueue appends, dequeue removes the head), and the
  one defect is proved too: \<open>Dequeue\<close> never resets \<open>tail\<close>, so a queue emptied by
  \<open>Dequeue\<close> loses the next node enqueued on it. \<open>FreeQueue\<close> (lines 173--182)
  runs on the allocation flags of the nodes: it always returns (a freed node is
  never visited twice without an error) and on a well-formed queue frees
  exactly its nodes.
  Claim C21, at the end, is \<open>FreeQueue\<close> freeing exactly a queue's nodes.
\<close>

section \<open>Heap, nodes and queues\<close>

datatype ptr = NULL | Ref nat

text \<open>\<open>typedef struct Node { PageRequest* item; struct Node* next; } Node;\<close>
  The \<open>PageRequest\<close> an item points to is owned by its node alone, so it is kept
  in the node.\<close>

record node =
  item :: page_request
  next_ptr :: ptr

text \<open>\<open>typedef struct { Node* head; Node* tail; } Queue;\<close>\<close>

record queue =
  head :: ptr
  tail :: ptr

type_synonym heap = "node list"

text \<open>\<open>p->next = v\<close>. Writing through \<open>NULL\<close> or a dangling pointer is undefined in C;
  the model leaves the heap unchanged there, and the invariants below exclude it.\<close>

fun set_next :: "heap \<Rightarrow> ptr \<Rightarrow> ptr \<Rightarrow> heap" where
  "set_next hp NULL v = hp"
| "set_next hp (Ref a) v = hp[a := (hp ! a)\<lparr>next_ptr := v\<rparr>]"

declare set_next.simps(2) [simp del]

section \<open>The operations\<close>

text \<open>\<open>NewQueue\<close> (lines 102--110), allocation failure not modelled.\<close>

definition NewQueue :: queue where
  "NewQueue = \<lparr>head = NULL, tail = NULL\<rparr>"

text \<open>\<open>NewNode\<close> (lines 91--100): a fresh node at the next free address.\<close>

definition NewNode :: "heap \<Rightarrow> page_request \<Rightarrow> heap \<times> ptr" where
  "NewNode hp r = (hp @ [\<lparr>item = r, next_ptr = NULL\<rparr>], Ref (length hp))"

text \<open>\<open>Enqueue\<close> (lines 112--120).\<close>

definition Enqueue :: "heap \<Rightarrow> queue \<Rightarrow> ptr \<Rightarrow> heap \<times> queue" where
  "Enqueue hp q n =
     (if tail q = NULL then (hp, q\<lparr>head := n, tail := n\<rparr>)
      else (set_next hp (tail q) n, q\<lparr>tail := n\<rparr>))"

text \<open>\<open>Dequeue\<close> (lines 122--130): the head moves on, the dequeued node's
  \<open>next\<close> is cleared; \<open>tail\<close> is left as it is.\<close>

definition Dequeue :: "heap \<Rightarrow> queue \<Rightarrow> heap \<times> queue \<times> ptr" where
  "Dequeue hp q =
     (case head q of
        NULL \<Rightarrow> (hp, q, NULL)
      | Ref a \<Rightarrow> (set_next hp (Ref a) NULL, q\<lparr>head := next_ptr (hp ! a)\<rparr>, Ref a))"

text \<open>\<open>IsQueueEmpty\<close> (lines 132--134) looks at the head only.\<close>

definition IsQueueEmpty :: "queue \<Rightarrow> bool" where
  "IsQueueEmpty q \<longleftrightarrow> head q = NULL"

section \<open>Abstraction\<close>

text \<open>\<open>path hp p as r\<close>: following \<open>next\<close> from \<open>p\<close> visits the allocated
  addresses \<open>as\<close> and arrives at \<open>r\<close>.\<close>

fun path :: "heap \<Rightarrow> ptr \<Rightarrow> nat list \<Rightarrow> ptr \<Rightarrow> bool" where
  "path hp p [] r \<longleftrightarrow> p = r"
| "path hp p (a # as) r \<longleftrightarrow> p = Ref a \<and> a < length hp \<and> path hp (next_ptr (hp ! a)) as r"

text \<open>A well-formed queue holding the nodes \<open>as\<close>, head first.\<close>

definition queue_inv :: "heap \<Rightarrow> queue \<Rightarrow> nat list \<Rightarrow> bool" where
  "queue_inv hp q as \<longleftrightarrow>
     path hp (head q) as NULL \<and> distinct as \<and>
     tail q = (if as = [] then NULL else Ref (last as))"

text \<open>The items of a list of nodes.\<close>

definition items :: "heap \<Rightarrow> nat list \<Rightarrow> page_request list" where
  "items hp as = map (\<lambda>a. item (hp ! a)) as"

text \<open>Allocation state of the nodes: \<open>live ! a\<close> holds while node \<open>a\<close> and
  its \<open>PageRequest\<close> are allocated and not yet freed. Each node owns its request
  (it is allocated for it in \<open>ReadFileData\<close> and freed with it in
  \<open>FreeQueue\<close>), so one flag covers both.\<close>

type_synonym live = "bool list"

text \<open>Touching memory that is not allocated: reading \<open>iterator->next\<close> or
  \<open>deleter->item\<close>, or freeing, a node that was freed or never allocated.\<close>

datatype mem_error = UseAfterFree

text \<open>The loop of \<open>FreeQueue\<close> (lines 176--181): remember the node, step to its
  \<open>next\<close>, free its item and the node itself. The loop has no bound; the model runs
  on fuel, and \<open>FreeQueue_loop_returns\<close> shows that one more than the number of
  live nodes always suffices, whatever the pointers.\<close>

fun FreeQueue_loop :: "nat \<Rightarrow> heap \<Rightarrow> live \<Rightarrow> ptr \<Rightarrow> (mem_error + live) option" where
  "FreeQueue_loop 0 hp lv iterator = None"
| "FreeQueue_loop (Suc f) hp lv NULL = Some (Inr lv)"
| "FreeQueue_loop (Suc f) hp lv (Ref deleter) =
     (if deleter < length hp \<and> deleter < length lv \<and> lv ! deleter
      then (let iterator = next_ptr (hp ! deleter) in FreeQueue_loop f hp (lv[deleter := False]) iterator)
      else Some (Inl UseAfterFree))"

text \<open>\<open>FreeQueue\<close> (lines 173--182) starts at the head.\<close>

definition FreeQueue :: "heap \<Rightarrow> live \<Rightarrow> queue \<Rightarrow> (mem_error + live) option" where
  "FreeQueue hp lv q = FreeQueue_loop (Suc (length lv)) hp lv (head q)"

text \<open>The flags after freeing the nodes \<open>as\<close>.\<close>

definition free_all :: "nat list \<Rightarrow> live \<Rightarrow> live" where
  "free_all as lv = foldl (\<lambda>l a. l[a := False]) lv as"

section \<open>Lemmas\<close>

lemma path_append [simp]:
  "path hp p (as @ bs) r \<longleftrightarrow> (\<exists>m. path hp p as m \<and> path hp m bs r)"
  by (induction as arbitrary: p) auto

lemma nth_set_next [simp]:
  "set_next hp (Ref a) v ! b = (if b = a \<and> a < length hp then (hp ! a)\<lparr>next_ptr := v\<rparr> else hp ! b)"
  by (cases "a < length hp") (auto simp: set_next.simps(2) nth_list_update list_update_beyond)

lemma length_set_next [simp]: "length (set_next hp p v) = length hp"
  by (cases p) (simp_all add: set_next.simps(2))

lemma path_set_next_other [simp]:
  "a \<notin> set as \<Longrightarrow> path (set_next hp (Ref a) v) p as r \<longleftrightarrow> path hp p as r"
  by (induction as arbitrary: p) auto

lemma path_lengths: "path hp p as r \<Longrightarrow> \<forall>a \<in> set as. a < length hp"
  by (induction as arbitrary: p) auto

lemma path_NULL_unique: "path hp p as NULL \<Longrightarrow> path hp p bs NULL \<Longrightarrow> as = bs"
proof (induction as arbitrary: p bs)
  case Nil
  then show ?case by (cases bs) auto
next
  case (Cons a as)
  then show ?case by (cases bs) auto
qed

lemma item_set_next [simp]: "map item (set_next hp p v) = map item hp"
proof (cases p)
  case (Ref a)
  have "map item (hp[a := (hp ! a)\<lparr>next_ptr := v\<rparr>]) = map item hp"
    by (induction hp arbitrary: a) (auto split: nat.split)
  with Ref show ?thesis by (simp add: set_next.simps(2))
qed simp

lemma item_nth_set_next:
  "a < length hp \<Longrightarrow> item (set_next hp p v ! a) = item (hp ! a)"
  using item_set_next [of hp p v] by (metis length_set_next nth_map)

lemma items_set_next [simp]:
  "\<forall>a \<in> set as. a < length hp \<Longrightarrow> items (set_next hp p v) as = items hp as"
  by (simp add: items_def item_nth_set_next)

lemma path_extend_heap:
  "path hp p as r \<Longrightarrow> path (hp @ ys) p as r"
  by (induction as arbitrary: p) (auto simp: nth_append)

lemma items_extend_heap:
  "\<forall>a \<in> set as. a < length hp \<Longrightarrow> items (hp @ ys) as = items hp as"
  by (simp add: items_def nth_append)

section \<open>The operations against the list specification\<close>

lemma NewQueue_inv: "queue_inv hp NewQueue []"
  by (simp add: queue_inv_def NewQueue_def)

lemma IsQueueEmpty_inv: "queue_inv hp q as \<Longrightarrow> IsQueueEmpty q \<longleftrightarrow> as = []"
  by (cases as) (auto simp: queue_inv_def IsQueueEmpty_def)

lemma NewNode_fresh:
  "NewNode hp r = (hp', n) \<Longrightarrow>
   n = Ref (length hp) \<and> length hp < length hp' \<and> hp' ! length hp = \<lparr>item = r, next_ptr = NULL\<rparr>"
  by (auto simp: NewNode_def)

lemma NewNode_keeps:
  "NewNode hp r = (hp', n) \<Longrightarrow> queue_inv hp q as \<Longrightarrow>
   queue_inv hp' q as \<and> items hp' as = items hp as"
  by (auto simp: NewNode_def queue_inv_def path_extend_heap items_extend_heap dest: path_lengths)

text \<open>Enqueueing a free node appends it, and keeps every list that does not run
  through the old tail.\<close>

lemma Enqueue_spec:
  assumes inv: "queue_inv hp q as" and a: "a < length hp" "a \<notin> set as"
    and nul: "next_ptr (hp ! a) = NULL" and enq: "Enqueue hp q (Ref a) = (hp', q')"
  shows "queue_inv hp' q' (as @ [a]) \<and> items hp' (as @ [a]) = items hp as @ [item (hp ! a)] \<and>
         length hp' = length hp \<and> map item hp' = map item hp \<and>
         (\<forall>p bs r. set bs \<inter> set as = {} \<longrightarrow> path hp' p bs r = path hp p bs r)"
proof (cases "as = []")
  case True
  with inv have "tail q = NULL" "head q = NULL" by (auto simp: queue_inv_def)
  with enq have "hp' = hp" "q' = q\<lparr>head := Ref a, tail := Ref a\<rparr>" by (auto simp: Enqueue_def)
  with True a nul show ?thesis by (simp add: queue_inv_def items_def)
next
  case False
  then obtain bs t where as: "as = bs @ [t]" by (cases as rule: rev_cases) auto
  with inv have tl: "tail q = Ref t" and pth: "path hp (head q) bs (Ref t)" "t < length hp"
    and d: "distinct (bs @ [t])" by (auto simp: queue_inv_def)
  with enq have hp': "hp' = set_next hp (Ref t) (Ref a)" and q': "q' = q\<lparr>tail := Ref a\<rparr>"
    by (auto simp: Enqueue_def)
  have at: "a \<noteq> t" using a as by auto
  have "path hp' (head q) bs (Ref t)" using pth d hp' by simp
  moreover have "path hp' (Ref t) [t, a] NULL"
    using hp' pth(2) a nul at by simp
  ultimately have "path hp' (head q') (as @ [a]) NULL"
    using as q' by (simp del: path.simps(2)) (metis path_append append_Cons append_Nil)
  moreover have "distinct (as @ [a])" using d a as by simp
  moreover have "\<forall>c \<in> set (as @ [a]). c < length hp"
    using path_lengths [OF pth(1)] pth(2) a as by auto
  ultimately show ?thesis
    using q' hp' as by (auto simp: queue_inv_def items_def item_nth_set_next)
qed

text \<open>Dequeueing a non-empty queue returns its first node, with \<open>next\<close> cleared;
  the rest of the list is the new queue. When the list had one node the result
  has a \<open>NULL\<close> head but still the old tail.\<close>

lemma Dequeue_spec:
  assumes pth: "path hp (head q) (a # as) NULL" and d: "distinct (a # as)"
    and deq: "Dequeue hp q = (hp', q', p)"
  shows "p = Ref a \<and> path hp' (head q') as NULL \<and> next_ptr (hp' ! a) = NULL \<and>
         a < length hp \<and> length hp' = length hp \<and> map item hp' = map item hp \<and>
         tail q' = tail q \<and> items hp' as = items hp as \<and>
         (\<forall>p bs r. a \<notin> set bs \<longrightarrow> path hp' p bs r = path hp p bs r)"
proof -
  from pth have h: "head q = Ref a" and al: "a < length hp" and rest: "path hp (next_ptr (hp ! a)) as NULL"
    by auto
  from h have "Dequeue hp q = (set_next hp (Ref a) NULL, q\<lparr>head := next_ptr (hp ! a)\<rparr>, Ref a)"
    by (simp add: Dequeue_def)
  from deq [symmetric] this
  have "(hp', q', p) = (set_next hp (Ref a) NULL, q\<lparr>head := next_ptr (hp ! a)\<rparr>, Ref a)"
    by (rule trans)
  then have "hp' = set_next hp (Ref a) NULL \<and> q' = q\<lparr>head := next_ptr (hp ! a)\<rparr> \<and> p = Ref a"
    by (simp only: prod.inject)
  then have hp': "hp' = set_next hp (Ref a) NULL" and q': "q' = q\<lparr>head := next_ptr (hp ! a)\<rparr>"
    and p: "p = Ref a" by blast+
  have "path hp' (head q') as NULL" using rest d hp' q' by simp
  moreover have "items hp' as = items hp as"
    using hp' path_lengths [OF rest] by simp
  ultimately show ?thesis using hp' q' p al by simp
qed

lemma Dequeue_inv:
  assumes "queue_inv hp q (a # as)" "as \<noteq> []" "Dequeue hp q = (hp', q', p)"
  shows "queue_inv hp' q' as"
  using Dequeue_spec [of hp q a as hp' q' p] assms by (auto simp: queue_inv_def)

section \<open>Freeing a queue\<close>

lemma length_free_all [simp]: "length (free_all as lv) = length lv"
  by (induction as arbitrary: lv) (simp_all add: free_all_def)

lemma free_all_Nil [simp]: "free_all [] lv = lv"
  by (simp add: free_all_def)

lemma free_all_Cons: "free_all (a # as) lv = free_all as (lv[a := False])"
  by (simp add: free_all_def)

lemma nth_clear:
  "a < length lv \<Longrightarrow> lv[b := False] ! a \<longleftrightarrow> lv ! a \<and> a \<noteq> b"
  by (cases "b < length lv") (auto simp: nth_list_update list_update_beyond)

lemma nth_free_all:
  "a < length lv \<Longrightarrow> free_all as lv ! a \<longleftrightarrow> lv ! a \<and> a \<notin> set as"
  by (induction as arbitrary: lv) (auto simp: free_all_Cons nth_clear)

lemma live_count_update:
  "a < length lv \<Longrightarrow> lv ! a \<Longrightarrow> length (filter (\<lambda>l. l) (lv[a := False])) < length (filter (\<lambda>l. l) lv)"
proof (induction lv arbitrary: a)
  case Nil
  then show ?case by simp
next
  case (Cons l lv)
  then show ?case by (cases a) (auto simp: length_filter_le le_imp_less_Suc)
qed

text \<open>Each turn frees a live node or stops, so the loop returns once the fuel
  exceeds the live nodes.\<close>

lemma FreeQueue_loop_returns:
  "length (filter (\<lambda>l. l) lv) < f \<Longrightarrow> FreeQueue_loop f hp lv p \<noteq> None"
proof (induction f hp lv p rule: FreeQueue_loop.induct)
  case (3 f hp lv deleter)
  show ?case
  proof (cases "deleter < length hp \<and> deleter < length lv \<and> lv ! deleter")
    case True
    with live_count_update [of deleter lv] "3.prems"
    have "length (filter (\<lambda>l. l) (lv[deleter := False])) < f" by simp
    with True "3.IH" show ?thesis by simp
  qed auto
qed simp_all

lemma FreeQueue_loop_path:
  "path hp p as NULL \<Longrightarrow> distinct as \<Longrightarrow> \<forall>a \<in> set as. a < length lv \<and> lv ! a \<Longrightarrow>
   length as < f \<Longrightarrow> FreeQueue_loop f hp lv p = Some (Inr (free_all as lv))"
proof (induction as arbitrary: p lv f)
  case Nil
  then show ?case by (cases f) (auto simp: free_all_def)
next
  case (Cons a as)
  from Cons.prems(4) obtain f' where f: "f = Suc f'" "length as < f'" by (cases f) auto
  have "\<forall>b \<in> set as. b < length (lv[a := False]) \<and> lv[a := False] ! b"
    using Cons.prems(2,3) by (auto simp: nth_list_update)
  with Cons.IH [of "next_ptr (hp ! a)" "lv[a := False]" f'] Cons.prems f show ?case
    by (auto simp: free_all_Cons)
qed

text \<open>Freeing a well-formed queue whose nodes are live frees exactly its nodes,
  each once.\<close>

lemma FreeQueue_spec:
  assumes "queue_inv hp q as" "\<forall>a \<in> set as. a < length lv \<and> lv ! a"
  shows "FreeQueue hp lv q = Some (Inr (free_all as lv))"
proof -
  from assms(1) have p: "path hp (head q) as NULL" and d: "distinct as" by (auto simp: queue_inv_def)
  have "set as \<subseteq> {..<length lv}" using assms(2) by auto
  then have "length as \<le> length lv" using d by (metis card_lessThan card_mono distinct_card finite_lessThan)
  with FreeQueue_loop_path [OF p d assms(2)] show ?thesis by (simp add: FreeQueue_def)
qed

lemma free_all_everything:
  "set as = {..<length lv} \<Longrightarrow> free_all as lv = replicate (length lv) False"
  by (intro nth_equalityI) (auto simp: nth_free_all)


section \<open>FreeQueue on a well-formed queue\<close>

text \<open>C21: \<open>FreeQueue\<close> on a well-formed queue whose nodes are all allocated
  frees exactly the nodes of the queue, each once, and leaves every other
  allocation as it was.\<close>

theorem FreeQueue_frees_queue:
  assumes "queue_inv hp q as" and "\<forall>a \<in> set as. a < length lv \<and> lv ! a"
  shows "\<exists>lv'. FreeQueue hp lv q = Some (Inr lv') \<and> length lv' = length lv \<and>
           (\<forall>b < length lv. lv' ! b \<longleftrightarrow> lv ! b \<and> b \<notin> set as)"
  using FreeQueue_spec [OF assms] nth_free_all [of _ lv as] by simp

theorem FreeQueue_frees_queue_witness:
  "queue_inv [\<lparr>item = \<lparr>req_id = 1, hitOrPageFault = ''PF''\<rparr>, next_ptr = NULL\<rparr>,
              \<lparr>item = \<lparr>req_id = 2, hitOrPageFault = ''PF''\<rparr>, next_ptr = NULL\<rparr>]
             \<lparr>head = Ref 1, tail = Ref 1\<rparr> [1] \<and>
   (1 :: nat) < length [True, True] \<and> [True, True] ! 1 \<and>
   FreeQueue [\<lparr>item = \<lparr>req_id = 1, hitOrPageFault = ''PF''\<rparr>, next_ptr = NULL\<rparr>,
              \<lparr>item = \<lparr>req_id = 2, hitOrPageFault = ''PF''\<rparr>, next_ptr = NULL\<rparr>]
     [True, True] \<lparr>head = Ref 1, tail = Ref 1\<rparr> = Some (Inr [True, False])"
proof -
  have i: "queue_inv [\<lparr>item = \<lparr>req_id = 1, hitOrPageFault = ''PF''\<rparr>, next_ptr = NULL\<rparr>,
              \<lparr>item = \<lparr>req_id = 2, hitOrPageFault = ''PF''\<rparr>, next_ptr = NULL\<rparr>]
             \<lparr>head = Ref 1, tail = Ref 1\<rparr> [1]" by (simp add: queue_inv_def)
  have l: "\<forall>a \<in> set [1 :: nat]. a < length [True, True] \<and> [True, True] ! a" by simp
  obtain lv' where r: "FreeQueue [\<lparr>item = \<lparr>req_id = 1, hitOrPageFault = ''PF''\<rparr>, next_ptr = NULL\<rparr>,
              \<lparr>item = \<lparr>req_id = 2, hitOrPageFault = ''PF''\<rparr>, next_ptr = NULL\<rparr>]
     [True, True] \<lparr>head = Ref 1, tail = Ref 1\<rparr> = Some (Inr lv')"
    and len: "length lv' = 2" and n: "\<forall>b < 2. lv' ! b \<longleftrightarrow> [True, True] ! b \<and> b \<notin> set [1 :: nat]"
    using FreeQueue_frees_queue [OF i l] by auto
  have "lv' = [True, False]"
  proof (rule nth_equalityI)
    show "length lv' = length [True, False]" using len by simp
    fix b assume "b < length lv'"
    with len n show "lv' ! b = [True, False] ! b" by (cases b) (auto simp: less_Suc_eq)
  qed
  with i l r show ?thesis by simp
qed

end
