(* ===== verification/Frames.thy ===== *)
theory Frames
  imports Prelude
begin

text \<open>
  The frame set: the block of \<open>SimNode\<close>s that \<open>SimulateFIFO\<close> and
  \<open>SimulateLRU\<close> allocate with \<open>malloc(totalFrames * sizeof(SimNode))\<close>, modelled
  as a list of records whose length is \<open>totalFrames\<close>. A slot whose id is
  \<open>-1\<close> is free. The theory holds the loops over the block that both policies
  share (\<open>IsSimFull\<close>, \<open>SimContains\<close> and the first-free-slot insertion), the
  abstraction \<open>residents\<close> (the resident page ids in slot order), the frame
  invariant (resident slots form a duplicate-free prefix, free slots the rest),
  and the lemmas that the policy theories build on.
\<close>

section \<open>The slots\<close>

text \<open>\<open>typedef struct { int id; int timesRequested; } SimNode;\<close> (lines 26--29).
  The field \<open>id\<close> is called \<open>sim_id\<close>, as \<open>id\<close> is the identity function of HOL.\<close>

record sim_node =
  sim_id :: int
  timesRequested :: int

text \<open>\<open>IsSimFull\<close> (lines 136--143): the block is full iff no slot holds \<open>-1\<close>.
  The pointer walk \<open>head + i\<close>, \<open>i < size\<close>, is recursion over the list.\<close>

fun IsSimFull :: "sim_node list \<Rightarrow> bool" where
  "IsSimFull [] = True"
| "IsSimFull (s # ss) = (if sim_id s = FREE then False else IsSimFull ss)"

text \<open>\<open>SimContains\<close> (lines 145--152).\<close>

fun SimContains :: "sim_node list \<Rightarrow> int \<Rightarrow> bool" where
  "SimContains [] x = False"
| "SimContains (s # ss) x = (if sim_id s = x then True else SimContains ss x)"

text \<open>
  The first-free-slot loop that both simulations run on a fault with a free slot
  (lines 266--271 and 313--318): the first slot whose id is \<open>-1\<close> gets the page,
  then the loop breaks. Its \<open>timesRequested\<close> is left as it is.
\<close>

fun fill_free :: "int \<Rightarrow> sim_node list \<Rightarrow> sim_node list" where
  "fill_free x [] = []"
| "fill_free x (s # ss) =
     (if sim_id s = FREE then s\<lparr>sim_id := x\<rparr> # ss else s # fill_free x ss)"

text \<open>Writing a slot's id leaves every counter as it was.\<close>

lemma times_update_id:
  "map timesRequested (xs[i := (xs ! i)\<lparr>sim_id := v\<rparr>]) = map timesRequested xs"
  by (induction xs arbitrary: i) (auto split: nat.split)

section \<open>Abstraction and invariant\<close>

text \<open>The resident pages, in slot order.\<close>

definition residents :: "sim_node list \<Rightarrow> int list" where
  "residents ss = filter (\<lambda>i. i \<noteq> FREE) (map sim_id ss)"

text \<open>
  The frame invariant: the occupied slots are a prefix of the block and hold
  distinct pages; every later slot is free. Both simulations keep it on traces
  that do not contain the sentinel \<open>-1\<close>.
\<close>

definition frames_inv :: "sim_node list \<Rightarrow> bool" where
  "frames_inv ss \<longleftrightarrow>
     map sim_id ss = residents ss @ replicate (length ss - length (residents ss)) FREE
     \<and> distinct (residents ss)"

section \<open>Lemmas\<close>

lemma IsSimFull_iff: "IsSimFull ss \<longleftrightarrow> FREE \<notin> sim_id ` set ss"
  by (induction ss) auto

lemma SimContains_iff: "SimContains ss x \<longleftrightarrow> x \<in> sim_id ` set ss"
  by (induction ss) auto

lemma length_fill_free [simp]: "length (fill_free x ss) = length ss"
  by (induction ss) auto

lemma times_fill_free [simp]:
  "map timesRequested (fill_free x ss) = map timesRequested ss"
  by (induction ss) auto

lemma FREE_notin_residents [simp]: "FREE \<notin> set (residents ss)"
  by (simp add: residents_def)

lemma set_residents: "set (residents ss) = sim_id ` set ss - {FREE}"
  by (auto simp: residents_def)

lemma length_residents_le: "length (residents ss) \<le> length ss"
  by (simp add: residents_def)

lemma residents_Nil [simp]: "residents [] = []"
  by (simp add: residents_def)

lemma residents_Cons [simp]:
  "residents (s # ss) = (if sim_id s = FREE then residents ss else sim_id s # residents ss)"
  by (simp add: residents_def)

lemma residents_append [simp]: "residents (xs @ ys) = residents xs @ residents ys"
  by (simp add: residents_def)

text \<open>Filling a free slot, stated on the ids: the first \<open>-1\<close> after the occupied
  prefix becomes the page.\<close>

lemma fill_free_ids:
  "map sim_id ss = rs @ replicate (Suc m) FREE \<Longrightarrow> FREE \<notin> set rs \<Longrightarrow>
   map sim_id (fill_free x ss) = rs @ x # replicate m FREE"
proof (induction ss arbitrary: rs)
  case Nil
  then show ?case by simp
next
  case (Cons s ss)
  show ?case
  proof (cases rs)
    case Nil
    with Cons.prems show ?thesis by simp
  next
    case (Cons r rs')
    with Cons.prems have "sim_id s = r" "r \<noteq> FREE" "map sim_id ss = rs' @ replicate (Suc m) FREE"
      by auto
    with Cons.IH [of rs'] Cons.prems \<open>rs = r # rs'\<close> show ?thesis by simp
  qed
qed

lemma fill_free_id_set: "sim_id ` set (fill_free x ss) \<subseteq> insert x (sim_id ` set ss)"
  by (induction ss) auto

lemma frames_inv_ids:
  "frames_inv ss \<Longrightarrow>
   map sim_id ss = residents ss @ replicate (length ss - length (residents ss)) FREE"
  by (simp add: frames_inv_def)

lemma IsSimFull_residents: "IsSimFull ss \<longleftrightarrow> length (residents ss) = length ss"
proof (induction ss)
  case Nil
  then show ?case by simp
next
  case (Cons s ss)
  have "length (residents ss) \<le> length ss" by (rule length_residents_le)
  with Cons.IH show ?case by auto
qed

lemma frames_inv_contains:
  "x \<noteq> FREE \<Longrightarrow> SimContains ss x \<longleftrightarrow> x \<in> set (residents ss)"
  by (auto simp: set_residents SimContains_iff)

text \<open>On a block without free slots the invariant is distinctness of the ids.\<close>

lemma frames_inv_no_free:
  assumes "FREE \<notin> sim_id ` set ss"
  shows "frames_inv ss \<longleftrightarrow> distinct (map sim_id ss)"
proof -
  have "residents ss = map sim_id ss"
    unfolding residents_def using assms by (intro filter_True) force
  then show ?thesis by (simp add: frames_inv_def)
qed

text \<open>A fault on a frame set that is not full appends the page to the residents.\<close>

lemma residents_fill_free:
  assumes "frames_inv ss" "\<not> IsSimFull ss" "x \<noteq> FREE"
  shows "residents (fill_free x ss) = residents ss @ [x]"
    and "map sim_id (fill_free x ss) = (residents ss @ [x]) @
           replicate (length ss - length (residents ss @ [x])) FREE"
proof -
  let ?m = "length ss - length (residents ss)"
  from assms(1,2) have "length (residents ss) < length ss"
    using IsSimFull_residents length_residents_le le_neq_implies_less by blast
  then obtain m where m: "?m = Suc m" by (cases ?m) auto
  with frames_inv_ids [OF assms(1)] have
    ids: "map sim_id (fill_free x ss) = residents ss @ x # replicate m FREE"
    by (simp add: fill_free_ids)
  then show "residents (fill_free x ss) = residents ss @ [x]"
    using assms(3) by (simp add: residents_def [of "fill_free x ss"] residents_def [of ss])
  then show "map sim_id (fill_free x ss) = (residents ss @ [x]) @
           replicate (length ss - length (residents ss @ [x])) FREE"
    using ids m by simp
qed

lemma frames_inv_fill_free:
  "frames_inv ss \<Longrightarrow> \<not> IsSimFull ss \<Longrightarrow> x \<noteq> FREE \<Longrightarrow> x \<notin> set (residents ss) \<Longrightarrow>
   frames_inv (fill_free x ss)"
  using residents_fill_free [of ss x] by (simp add: frames_inv_def)

end
