(* ===== verification/Float32.thy ===== *)
theory Float32
  imports Prelude
begin

text \<open>
  IEEE single precision as \<open>PrintValues\<close> uses it: the exact value of a
  \<open>float\<close> is a rational, and every operation rounds its exact result to the
  nearest value with a 24-bit significand, ties to even (\<open>round_f32\<close>). The
  exponent of a rational is computed by halving or doubling it into \<open>[1, 2)\<close>.
  The lemmas give the relative error \<open>2^-24\<close> of one rounding, monotonicity,
  and exactness on the integers below \<open>2^24\<close>. The arithmetic is single
  precision, as on x86-64 with SSE (\<open>FLT_EVAL_METHOD == 0\<close>).
\<close>

section \<open>Rounding to nearest, ties to even\<close>

definition rhe :: "rat \<Rightarrow> int" where
  "rhe x = (let k = \<lfloor>x\<rfloor>; d = x - of_int k
            in if d < 1/2 then k else if 1/2 < d then k + 1 else if even k then k else k + 1)"

lemma rhe_error: "\<bar>of_int (rhe x) - x\<bar> \<le> 1/2"
proof -
  have "of_int \<lfloor>x\<rfloor> \<le> x" "x < of_int \<lfloor>x\<rfloor> + 1" by linarith+
  then show ?thesis by (auto simp: rhe_def Let_def)
qed

lemma rhe_of_int [simp]: "rhe (of_int k) = k"
  by (simp add: rhe_def)

lemma rhe_floor: "\<lfloor>x\<rfloor> \<le> rhe x \<and> rhe x \<le> \<lfloor>x\<rfloor> + 1"
  by (simp add: rhe_def Let_def)

lemma rhe_mono:
  assumes "x \<le> y"
  shows "rhe x \<le> rhe y"
proof (cases "\<lfloor>x\<rfloor> = \<lfloor>y\<rfloor>")
  case True
  then have "x - of_int \<lfloor>x\<rfloor> \<le> y - of_int \<lfloor>y\<rfloor>" using assms by simp
  with True show ?thesis by (auto simp: rhe_def Let_def)
next
  case False
  with assms have "\<lfloor>x\<rfloor> + 1 \<le> \<lfloor>y\<rfloor>" by (meson floor_mono le_less zless_imp_add1_zle)
  with rhe_floor [of x] rhe_floor [of y] show ?thesis by linarith
qed

section \<open>Binary exponent\<close>

function flog2_up :: "rat \<Rightarrow> int" where
  "flog2_up r = (if 2 \<le> r then 1 + flog2_up (r / 2) else 0)"
  by pat_completeness auto
termination
proof (relation "measure (\<lambda>r. nat \<lfloor>r\<rfloor>)")
  fix r :: rat assume r: "2 \<le> r"
  have "r / 2 \<le> r - 1" using r by simp
  then have "\<lfloor>r / 2\<rfloor> \<le> \<lfloor>r\<rfloor> - 1" by linarith
  moreover have "2 \<le> \<lfloor>r\<rfloor>" using r by linarith
  ultimately show "(r / 2, r) \<in> measure (\<lambda>r. nat \<lfloor>r\<rfloor>)" by simp
qed simp

function flog2_down :: "rat \<Rightarrow> int" where
  "flog2_down r = (if 0 < r \<and> r < 1 then flog2_down (2 * r) - 1 else 0)"
  by pat_completeness auto
termination
proof (relation "measure (\<lambda>r. nat \<lceil>1 / r\<rceil>)")
  fix r :: rat assume r: "0 < r \<and> r < 1"
  let ?x = "1 / r"
  have x: "1 < ?x" using r by simp
  have c: "?x \<le> of_int \<lceil>?x\<rceil>" "2 \<le> \<lceil>?x\<rceil>" using x by linarith+
  from c(2) have "(2 :: rat) \<le> of_int \<lceil>?x\<rceil>" by linarith
  have e: "1 / (2 * r) = ?x / 2" by simp
  have "?x / 2 \<le> of_int \<lceil>?x\<rceil> / 2" using c(1) by simp
  moreover have "of_int \<lceil>?x\<rceil> / 2 \<le> of_int \<lceil>?x\<rceil> - (1 :: rat)"
    using \<open>(2 :: rat) \<le> of_int \<lceil>?x\<rceil>\<close> by simp
  ultimately have "?x / 2 \<le> of_int (\<lceil>?x\<rceil> - 1)" unfolding of_int_diff of_int_1 by linarith
  then have "1 / (2 * r) \<le> of_int (\<lceil>?x\<rceil> - 1)" by (simp only: e)
  then have "\<lceil>1 / (2 * r)\<rceil> \<le> \<lceil>?x\<rceil> - 1" by (simp only: ceiling_le_iff)
  with c r show "(2 * r, r) \<in> measure (\<lambda>r. nat \<lceil>1 / r\<rceil>)" by simp
qed simp

declare flog2_up.simps [simp del] flog2_down.simps [simp del]

lemma pow2_succ: "(2 :: rat) powi (k + 1) = 2 * 2 powi k"
  by (simp add: power_int_add)

definition flog2 :: "rat \<Rightarrow> int" where
  "flog2 r = (if r < 1 then flog2_down r else flog2_up r)"

lemma flog2_up_bounds: "1 \<le> r \<Longrightarrow> 2 powi flog2_up r \<le> r \<and> r < 2 powi (flog2_up r + 1)"
proof (induction r rule: flog2_up.induct)
  case (1 r)
  show ?case
  proof (cases "2 \<le> r")
    case True
    with "1.IH" have ih: "2 powi flog2_up (r / 2) \<le> r / 2 \<and> r / 2 < 2 powi (flog2_up (r / 2) + 1)" by simp
    have "(2 :: rat) powi (1 + flog2_up (r / 2)) = 2 * 2 powi flog2_up (r / 2)"
      "(2 :: rat) powi (1 + flog2_up (r / 2) + 1) = 2 * 2 powi (flog2_up (r / 2) + 1)"
      using pow2_succ [of "flog2_up (r / 2)"] pow2_succ [of "flog2_up (r / 2) + 1"] by (simp_all add: add.commute)
    with ih True show ?thesis by (simp add: flog2_up.simps [of r])
  next
    case False
    with "1.prems" show ?thesis by (simp add: flog2_up.simps [of r])
  qed
qed

lemma flog2_down_bounds: "0 < r \<Longrightarrow> r < 2 \<Longrightarrow> 2 powi flog2_down r \<le> r \<and> r < 2 powi (flog2_down r + 1)"
proof (induction r rule: flog2_down.induct)
  case (1 r)
  show ?case
  proof (cases "r < 1")
    case True
    with "1.prems" "1.IH" have ih: "2 powi flog2_down (2 * r) \<le> 2 * r \<and> 2 * r < 2 powi (flog2_down (2 * r) + 1)"
      by simp
    have "(2 :: rat) powi flog2_down (2 * r) = 2 * 2 powi (flog2_down (2 * r) - 1)"
      using pow2_succ [of "flog2_down (2 * r) - 1"] by simp
    with ih True "1.prems" pow2_succ [of "flog2_down (2 * r)"] show ?thesis by (simp add: flog2_down.simps [of r])
  next
    case False
    with "1.prems" show ?thesis by (simp add: flog2_down.simps [of r])
  qed
qed

lemma flog2_bounds: "0 < r \<Longrightarrow> 2 powi flog2 r \<le> r \<and> r < 2 powi (flog2 r + 1)"
  using flog2_up_bounds [of r] flog2_down_bounds [of r] by (simp add: flog2_def)

section \<open>Rounding to single precision\<close>

text \<open>The nearest \<open>float\<close> to \<open>r\<close>, ties to even: 24 significant bits. The exponent
  range is not bounded; every value the program rounds lies between \<open>2^-31\<close> and
  \<open>2^31\<close>, inside the normal range of \<open>float\<close>.\<close>

definition round_f32 :: "rat \<Rightarrow> rat" where
  "round_f32 r =
     (if r = 0 then 0
      else (let a = \<bar>r\<bar>; e = flog2 a - 23
            in (if r < 0 then -1 else 1) * (of_int (rhe (a / 2 powi e)) * 2 powi e)))"

lemma round_f32_error:
  assumes "0 < r"
  shows "\<bar>round_f32 r - r\<bar> \<le> r / 2 ^ 24"
proof -
  let ?e = "flog2 r - 23" let ?u = "(2 :: rat) powi ?e"
  have u: "0 < ?u" by simp
  have "of_int (rhe (r / ?u)) * ?u - r = ?u * (of_int (rhe (r / ?u)) - r / ?u)"
    using u by (simp add: field_simps)
  then have "\<bar>of_int (rhe (r / ?u)) * ?u - r\<bar> = ?u * \<bar>of_int (rhe (r / ?u)) - r / ?u\<bar>"
    using u by (simp add: abs_mult)
  also have "\<dots> \<le> ?u * (1 / 2)" using rhe_error [of "r / ?u"] u by (intro mult_left_mono) simp_all
  also have "?u * 2 ^ 23 = 2 powi flog2 r"
    by (simp add: power_int_diff)
  then have "?u * (1 / 2) = 2 powi flog2 r / 2 ^ 24" by simp
  also have "\<dots> \<le> r / 2 ^ 24" using flog2_bounds [OF assms] by (intro divide_right_mono) simp_all
  finally show ?thesis using assms by (simp add: round_f32_def Let_def)
qed

lemma round_f32_nonneg: "0 \<le> r \<Longrightarrow> 0 \<le> round_f32 r"
proof (cases "r = 0")
  case False
  assume "0 \<le> r"
  with False have r: "0 < r" by simp
  from round_f32_error [OF r] have "r - r / 2 ^ 24 \<le> round_f32 r" by linarith
  moreover have "0 \<le> r - r / 2 ^ 24" using r by simp
  ultimately show ?thesis by linarith
qed (simp add: round_f32_def)

text \<open>An integer below \<open>2^24\<close> is a \<open>float\<close>: the conversions \<open>(float)n\<close> of the
  counts are exact.\<close>

lemma round_f32_nat:
  assumes "n < 2 ^ 24"
  shows "round_f32 (of_nat n) = of_nat n"
proof (cases "n = 0")
  case False
  let ?k = "flog2 (of_nat n)"
  have b: "2 powi ?k \<le> (of_nat n :: rat)" "(of_nat n :: rat) < 2 powi (?k + 1)"
    using flog2_bounds [of "of_nat n"] False by simp_all
  have "(2 :: rat) powi ?k < 2 powi 24"
    using b(1) assms by (simp add: of_nat_less_numeral_power_cancel_iff [symmetric])
  have k: "?k \<le> 23"
  proof (rule ccontr)
    assume "\<not> ?k \<le> 23"
    then have "24 \<le> ?k" by simp
    then have "(2 :: rat) powi 24 \<le> 2 powi ?k" by (rule power_int_increasing) simp
    with \<open>(2 :: rat) powi ?k < 2 powi 24\<close> show False by simp
  qed
  let ?z = "int n * 2 ^ nat (23 - ?k)"
  have d: "(of_nat n :: rat) / 2 powi (?k - 23) = of_int ?z"
    using k by (simp add: power_int_minus [of _ "23 - ?k", simplified] power_int_nonneg_exp divide_inverse)
  have m: "of_int ?z * (2 :: rat) powi (?k - 23) = of_nat n"
    using k by (simp add: power_int_minus [of _ "23 - ?k", simplified] power_int_nonneg_exp)
  have "round_f32 (of_nat n) = of_int (rhe ((of_nat n :: rat) / 2 powi (?k - 23))) * 2 powi (?k - 23)"
    using False by (simp add: round_f32_def Let_def)
  also have "\<dots> = of_int ?z * 2 powi (?k - 23)" by (simp only: d rhe_of_int)
  also have "\<dots> = of_nat n" by (rule m)
  finally show ?thesis .
qed (simp add: round_f32_def)

lemma flog2_mono: "0 < r \<Longrightarrow> r \<le> s \<Longrightarrow> flog2 r \<le> flog2 s"
proof (rule ccontr)
  assume r: "0 < r" "r \<le> s" and "\<not> flog2 r \<le> flog2 s"
  then have "flog2 s + 1 \<le> flog2 r" by simp
  then have "(2 :: rat) powi (flog2 s + 1) \<le> 2 powi flog2 r" by (rule power_int_increasing) simp
  with flog2_bounds [of r] flog2_bounds [of s] r show False by linarith
qed

lemma round_f32_pos:
  assumes "0 < r"
  shows "round_f32 r = of_int (rhe (r / 2 powi (flog2 r - 23))) * 2 powi (flog2 r - 23)"
  using assms by (simp add: round_f32_def Let_def)

text \<open>A positive value rounds into the binade of its exponent, its upper end
  included.\<close>

lemma round_f32_binade:
  assumes "0 < r"
  shows "2 powi flog2 r \<le> round_f32 r \<and> round_f32 r \<le> 2 powi (flog2 r + 1)"
proof -
  let ?u = "(2 :: rat) powi (flog2 r - 23)"
  have u: "0 < ?u" by simp
  have lo: "2 powi flog2 r = 2 ^ 23 * ?u" and hi: "2 powi (flog2 r + 1) = 2 ^ 24 * ?u"
    by (simp_all add: power_int_diff power_int_add)
  have "2 ^ 23 \<le> r / ?u" using flog2_bounds [OF assms] lo u by (simp add: pos_le_divide_eq mult.commute)
  then have "2 ^ 23 \<le> \<lfloor>r / ?u\<rfloor>" by (simp add: le_floor_iff)
  then have a: "2 ^ 23 \<le> rhe (r / ?u)" using rhe_floor [of "r / ?u"] by linarith
  have "r / ?u < 2 ^ 24" using flog2_bounds [OF assms] hi u by (simp add: pos_divide_less_eq mult.commute)
  then have "\<lfloor>r / ?u\<rfloor> < 2 ^ 24" by (simp add: floor_less_iff)
  then have b: "rhe (r / ?u) \<le> 2 ^ 24" using rhe_floor [of "r / ?u"] by linarith
  have "(of_int (2 ^ 23) :: rat) \<le> of_int (rhe (r / ?u))" using a by (simp only: of_int_le_iff)
  then have a': "(2 :: rat) ^ 23 \<le> of_int (rhe (r / ?u))" by simp
  have "(of_int (rhe (r / ?u)) :: rat) \<le> of_int (2 ^ 24)" using b by (simp only: of_int_le_iff)
  then have b': "of_int (rhe (r / ?u)) \<le> (2 :: rat) ^ 24" by simp
  have "(2 :: rat) ^ 23 * ?u \<le> of_int (rhe (r / ?u)) * ?u"
    using a' u by (intro mult_right_mono) simp_all
  moreover have "of_int (rhe (r / ?u)) * ?u \<le> (2 :: rat) ^ 24 * ?u"
    using b' u by (intro mult_right_mono) simp_all
  ultimately show ?thesis using assms lo hi by (simp add: round_f32_pos)
qed

lemma round_f32_mono:
  assumes "0 \<le> r" "r \<le> s"
  shows "round_f32 r \<le> round_f32 s"
proof (cases "r = 0")
  case True
  then show ?thesis using assms round_f32_nonneg [of s] by (simp add: round_f32_def)
next
  case False
  with assms have r: "0 < r" and s: "0 < s" by simp_all
  have le: "flog2 r \<le> flog2 s" using flog2_mono [OF r assms(2)] .
  show ?thesis
  proof (cases "flog2 r = flog2 s")
    case True
    let ?u = "(2 :: rat) powi (flog2 r - 23)"
    have "r / ?u \<le> s / ?u" using assms(2) by (simp add: divide_right_mono)
    then have "rhe (r / ?u) \<le> rhe (s / ?u)" by (rule rhe_mono)
    then have "of_int (rhe (r / ?u)) * ?u \<le> of_int (rhe (s / ?u)) * ?u"
      by (intro mult_right_mono) simp_all
    with True r s show ?thesis by (simp add: round_f32_pos)
  next
    case False
    with le have "flog2 r + 1 \<le> flog2 s" by simp
    then have "(2 :: rat) powi (flog2 r + 1) \<le> 2 powi flog2 s" by (rule power_int_increasing) simp
    with round_f32_binade [OF r] round_f32_binade [OF s] show ?thesis by linarith
  qed
qed

end
