(* ===== verification/Output.thy ===== *)
theory Output
  imports Float32
begin

text \<open>
  The output side of a run: the labels the simulations copy into
  \<open>PageRequest.hitOrPageFault\<close>, the decimal printing of \<open>%d\<close>, and
  \<open>PrintValues\<close> (lines 329--348), which walks the output queue, counts the
  references and the page faults, writes one line per reference and computes the
  fault rate in C \<open>float\<close> arithmetic, each operation rounded to single precision
  (theory \<open>Float32\<close>), with the IEEE special values it can reach (\<open>0/0\<close> is NaN).
  \<open>PrintValues_text\<close> is the whole file, the rate rendered by \<open>%.2f\<close>.
  Claim C34, at the end, bounds the error of the single-precision rate.
\<close>

section \<open>Labels and their buffer\<close>

text \<open>The two labels the code \<open>strcpy\<close>s (lines 251, 255, 296, 306).\<close>

definition HIT_label :: string where "HIT_label = ''HIT''"
definition PF_label :: string where "PF_label = ''PF''"

text \<open>
  \<open>strcpy(dst, src)\<close> into a buffer of \<open>n\<close> bytes writes \<open>length src + 1\<close>
  bytes (the terminating NUL); it stays inside the buffer iff that is at most
  \<open>n\<close>. \<open>hitOrPageFault\<close> is \<open>char[3]\<close>.
\<close>

definition strcpy_fits :: "nat \<Rightarrow> string \<Rightarrow> bool" where
  "strcpy_fits n src \<longleftrightarrow> length src + 1 \<le> n"

text \<open>The label a classification writes: \<open>HIT\<close> for a hit, \<open>PF\<close> for a fault.\<close>

definition label_of :: "bool \<Rightarrow> string" where
  "label_of hit = (if hit then HIT_label else PF_label)"

definition hitOrPageFault_size :: nat where "hitOrPageFault_size = 3"

section \<open>Printing integers\<close>

text \<open>\<open>fprintf(\<dots>, "%d", i)\<close>: decimal digits, a minus sign for negatives.\<close>

fun nat_digits :: "nat \<Rightarrow> string" where
  "nat_digits n =
     (if n < 10 then [char_of (48 + n)]
      else nat_digits (n div 10) @ [char_of (48 + n mod 10)])"

declare nat_digits.simps [simp del]

definition show_int :: "int \<Rightarrow> string" where
  "show_int i = (if i < 0 then CHR ''-'' # nat_digits (nat (- i)) else nat_digits (nat i))"

section \<open>The fault rate in float arithmetic\<close>

text \<open>A C \<open>float\<close>: NaN, infinity, or a finite value, the rational it denotes.
  Only the non-negative values occur.\<close>

datatype c_float = NaN | Inf | Fin rat

text \<open>\<open>a / b\<close> for a \<open>float\<close> \<open>a\<close> and an \<open>int\<close> \<open>b\<close>: \<open>b\<close> is converted to
  \<open>float\<close>, the quotient is rounded; a zero divisor gives NaN for \<open>0/0\<close> and
  infinity otherwise.\<close>

fun fdiv :: "rat \<Rightarrow> nat \<Rightarrow> c_float" where
  "fdiv a b =
     (let b' = round_f32 (of_nat b)
      in if b' = 0 then (if a = 0 then NaN else Inf) else Fin (round_f32 (a / b')))"

text \<open>\<open>x * c\<close> for a \<open>float\<close> \<open>x\<close> and a \<open>float\<close> constant \<open>c\<close>, rounded.\<close>

fun fmul :: "c_float \<Rightarrow> rat \<Rightarrow> c_float" where
  "fmul NaN c = NaN"
| "fmul Inf c = (if c = 0 then NaN else Inf)"
| "fmul (Fin a) c = Fin (round_f32 (a * c))"

text \<open>\<open>"%.2f"\<close> as glibc prints it: the exact value rounded to two decimals, ties
  to even, a minus sign for a negative value; a NaN produced by \<open>0.0f/0.0f\<close> on
  x86-64 has its sign bit set and prints as \<open>-nan\<close>.\<close>

definition fmt_2f :: "c_float \<Rightarrow> string" where
  "fmt_2f v =
     (case v of
        NaN \<Rightarrow> ''-nan''
      | Inf \<Rightarrow> ''inf''
      | Fin x \<Rightarrow>
          (let k = nat (rhe (\<bar>x\<bar> * 100)); c = k mod 100
           in (if x < 0 then ''-'' else []) @ nat_digits (k div 100) @
              CHR ''.'' # (if c < 10 then CHR ''0'' # nat_digits c else nat_digits c)))"

section \<open>PrintValues\<close>

text \<open>One output line, \<open>"%d\t%s\n"\<close> (line 343).\<close>

definition print_line :: "page_request \<Rightarrow> string" where
  "print_line r = show_int (req_id r) @ CHR 0x09 # hitOrPageFault r @ [CHR 0x0A]"

record pv_state =
  numOfPages :: nat
  numOfPageFaults :: nat
  written :: "string list"

text \<open>The \<open>for\<close> loop of \<open>PrintValues\<close> (lines 338--344).\<close>

fun print_loop :: "pv_state \<Rightarrow> page_request list \<Rightarrow> pv_state" where
  "print_loop st [] = st"
| "print_loop st (r # rs) =
     print_loop
       \<lparr>numOfPages = numOfPages st + 1,
        numOfPageFaults =
          (if hitOrPageFault r = PF_label then numOfPageFaults st + 1 else numOfPageFaults st),
        written = written st @ [print_line r]\<rparr> rs"

text \<open>\<open>PrintValues\<close>: the lines written and the rate printed after them.\<close>

definition PrintValues :: "page_request list \<Rightarrow> string list \<times> c_float" where
  "PrintValues out =
     (let st = print_loop \<lparr>numOfPages = 0, numOfPageFaults = 0, written = []\<rparr> out
      in (written st, fmul (fdiv (round_f32 (of_nat (numOfPageFaults st))) (numOfPages st)) (round_f32 100)))"

text \<open>The file \<open>PrintValues\<close> writes: the lines, then
  \<open>fprintf(outputFile, "PF Rate : %.2f%%", pfRate)\<close> (line 346).\<close>

definition PrintValues_text :: "page_request list \<Rightarrow> string" where
  "PrintValues_text out =
     (let (ls, pfRate) = PrintValues out in concat ls @ ''PF Rate : '' @ fmt_2f pfRate @ ''%'')"

section \<open>Lemmas\<close>

text \<open>The counters and the written lines after the loop, by induction on the queue
  with the loop state generalised.\<close>

lemma print_loop_eq:
  "print_loop st rs =
     \<lparr>numOfPages = numOfPages st + length rs,
      numOfPageFaults = numOfPageFaults st + length (filter (\<lambda>r. hitOrPageFault r = PF_label) rs),
      written = written st @ map print_line rs\<rparr>"
  by (induction rs arbitrary: st) auto

lemma round_f32_100 [simp]: "round_f32 100 = 100"
  using round_f32_nat [of 100] by simp

lemma round_f32_nat_zero_iff: "round_f32 (of_nat n) = 0 \<longleftrightarrow> n = 0"
proof (cases "n = 0")
  case False
  then have "0 < (of_nat n :: rat)" by simp
  from round_f32_binade [OF this] have "0 < round_f32 (of_nat n)"
    by (metis order_less_le_trans zero_less_numeral zero_less_power_int)
  with False show ?thesis by simp
qed (simp add: round_f32_def)

text \<open>The rate: NaN on an empty queue, otherwise the faults, converted to
  \<open>float\<close>, divided by the converted count and multiplied by 100, each step
  rounded.\<close>

lemma PrintValues_eq:
  "PrintValues out =
     (map print_line out,
      (if out = [] then NaN
       else Fin (round_f32 (round_f32 (round_f32 (of_nat (length (filter (\<lambda>r. hitOrPageFault r = PF_label) out)))
                 / round_f32 (of_nat (length out))) * 100))))"
  by (simp add: PrintValues_def print_loop_eq round_f32_nat_zero_iff Let_def round_f32_def [of 0])

lemma PrintValues_rate_bounds:
  "out \<noteq> [] \<Longrightarrow> \<exists>r. snd (PrintValues out) = Fin r \<and> 0 \<le> r \<and> r \<le> 100"
proof -
  assume ne: "out \<noteq> []"
  let ?f = "round_f32 (of_nat (length (filter (\<lambda>r. hitOrPageFault r = PF_label) out)))"
  let ?n = "round_f32 (of_nat (length out))"
  have "(of_nat (length (filter (\<lambda>r. hitOrPageFault r = PF_label) out)) :: rat) \<le> of_nat (length out)" by simp
  then have le: "?f \<le> ?n" by (intro round_f32_mono) simp_all
  have f0: "0 \<le> ?f" by (intro round_f32_nonneg) simp
  from ne have pos: "0 < ?n" using round_f32_nat_zero_iff [of "length out"] round_f32_nonneg [of "of_nat (length out)"]
    by (simp add: less_le)
  have "?f / ?n \<le> 1" using le pos by simp
  then have "round_f32 (?f / ?n) \<le> round_f32 1" using f0 pos by (intro round_f32_mono) simp_all
  then have q: "round_f32 (?f / ?n) \<le> 1" using round_f32_nat [of 1] by simp
  have q0: "0 \<le> round_f32 (?f / ?n)" using f0 pos by (intro round_f32_nonneg) simp
  have "round_f32 (round_f32 (?f / ?n) * 100) \<le> round_f32 100"
    using q q0 by (intro round_f32_mono) simp_all
  moreover have "0 \<le> round_f32 (round_f32 (?f / ?n) * 100)" using q0 by (intro round_f32_nonneg) simp
  ultimately show ?thesis using ne by (simp add: PrintValues_eq)
qed

text \<open>The two roundings of \<open>f / n * 100\<close>, for counts that convert exactly, stay
  within a relative \<open>2^-22\<close> of the exact percentage.\<close>

lemma rate_f32_error:
  assumes "0 \<le> x"
  shows "\<bar>round_f32 (round_f32 x * 100) - 100 * x\<bar> \<le> 100 * x / 2 ^ 22"
proof (cases "x = 0")
  case True
  then show ?thesis by (simp add: round_f32_def)
next
  case False
  with assms have x: "0 < x" by simp
  let ?q = "round_f32 x"
  have eq: "\<bar>?q - x\<bar> \<le> x / 2 ^ 24" by (rule round_f32_error [OF x])
  then have "x - x / 2 ^ 24 \<le> ?q" "?q \<le> x + x / 2 ^ 24" by linarith+
  moreover have "0 < x - x / 2 ^ 24" using x by simp
  ultimately have q: "0 < ?q * 100" by linarith
  have "\<bar>round_f32 (?q * 100) - ?q * 100\<bar> \<le> ?q * 100 / 2 ^ 24" by (rule round_f32_error [OF q])
  moreover have "\<bar>?q * 100 - 100 * x\<bar> \<le> 100 * x / 2 ^ 24"
  proof -
    have "?q * 100 - 100 * x = 100 * (?q - x)" by (simp add: algebra_simps)
    then have "\<bar>?q * 100 - 100 * x\<bar> = \<bar>100 * (?q - x)\<bar>" by (rule arg_cong)
    also have "\<dots> = 100 * \<bar>?q - x\<bar>" by (simp only: abs_mult abs_numeral)
    finally have "\<bar>?q * 100 - 100 * x\<bar> = 100 * \<bar>?q - x\<bar>" .
    with eq show ?thesis by simp
  qed
  moreover have "?q * 100 / 2 ^ 24 \<le> (x + x / 2 ^ 24) * 100 / 2 ^ 24"
    using \<open>?q \<le> x + x / 2 ^ 24\<close> by (intro divide_right_mono mult_right_mono) simp_all
  moreover have "(x + x / 2 ^ 24) * 100 / 2 ^ 24 + 100 * x / 2 ^ 24 \<le> 100 * x / 2 ^ 22"
    using x by (simp add: field_simps)
  ultimately show ?thesis by linarith
qed

lemma faults_map2_label_of:
  "length hs = length xs \<Longrightarrow>
   length (filter (\<lambda>r. hitOrPageFault r = PF_label)
             (map2 (\<lambda>x h. \<lparr>req_id = x, hitOrPageFault = label_of h\<rparr>) xs hs)) =
   length (filter Not hs)"
  by (induction hs xs rule: list_induct2) (auto simp: label_of_def HIT_label_def PF_label_def)

text \<open>Records labelled with one of two different labels split into the two
  counts.\<close>

lemma HIT_neq_PF: "HIT_label \<noteq> PF_label"
  by (simp add: HIT_label_def PF_label_def)


section \<open>The fault rate in single precision\<close>

text \<open>C34: For a non-empty output of fewer than \<open>2^24\<close> references, the \<open>float\<close>
  rate \<open>PrintValues\<close> computes is within \<open>100 / 2^22\<close> (about \<open>0.000024\<close>) of
  the exact percentage of faults, and the two-decimal number \<open>%.2f\<close> prints is
  within \<open>0.005\<close> more.\<close>

theorem rate_within_float_error:
  assumes "out \<noteq> []" and "length out < 2 ^ 24"
  shows "\<exists>v. snd (PrintValues out) = Fin v \<and>
           \<bar>v - 100 * of_nat (length (filter (\<lambda>r. hitOrPageFault r = PF_label) out)) / of_nat (length out)\<bar>
             \<le> 100 / 2 ^ 22 \<and>
           \<bar>(of_int (rhe (v * 100)) :: rat) / 100 -
              100 * of_nat (length (filter (\<lambda>r. hitOrPageFault r = PF_label) out)) / of_nat (length out)\<bar>
             \<le> 1 / 200 + 100 / 2 ^ 22"
proof -
  let ?f = "length (filter (\<lambda>r. hitOrPageFault r = PF_label) out)" and ?n = "length out"
  have fn: "?f \<le> ?n" by simp
  have cf: "round_f32 (of_nat ?f) = of_nat ?f" using fn assms(2) by (intro round_f32_nat) (rule le_less_trans)
  have cn: "round_f32 (of_nat ?n) = of_nat ?n" using assms(2) by (intro round_f32_nat)
  let ?x = "(of_nat ?f :: rat) / of_nat ?n"
  let ?v = "round_f32 (round_f32 ?x * 100)"
  have rate: "snd (PrintValues out) = Fin ?v" using assms(1) cf cn by (simp add: PrintValues_eq)
  have x0: "0 \<le> ?x" by simp
  have x1: "?x \<le> 1" using fn assms(1) by simp
  have e: "\<bar>?v - 100 * ?x\<bar> \<le> 100 * ?x / 2 ^ 22" by (rule rate_f32_error [OF x0])
  also have "100 * ?x / 2 ^ 22 \<le> 100 / 2 ^ 22" using x1 by simp
  finally have e1: "\<bar>?v - 100 * ?x\<bar> \<le> 100 / 2 ^ 22" .
  have "\<bar>of_int (rhe (?v * 100)) - ?v * 100\<bar> \<le> 1 / 2" by (rule rhe_error)
  then have "\<bar>of_int (rhe (?v * 100)) / 100 - ?v\<bar> \<le> 1 / 200" by (simp add: abs_le_iff field_simps)
  with e1 have e2: "\<bar>of_int (rhe (?v * 100)) / 100 - 100 * ?x\<bar> \<le> 1 / 200 + 100 / 2 ^ 22" by linarith
  have p: "100 * ?x = 100 * of_nat ?f / of_nat ?n" by simp
  show ?thesis using rate e1 e2 unfolding p by blast
qed

theorem rate_within_float_error_witness:
  "[\<lparr>req_id = 1, hitOrPageFault = PF_label\<rparr>, \<lparr>req_id = 2, hitOrPageFault = HIT_label\<rparr>,
    \<lparr>req_id = 3, hitOrPageFault = HIT_label\<rparr>] \<noteq> [] \<and>
   length [\<lparr>req_id = 1, hitOrPageFault = PF_label\<rparr>, \<lparr>req_id = 2, hitOrPageFault = HIT_label\<rparr>,
    \<lparr>req_id = 3, hitOrPageFault = HIT_label\<rparr>] < (2 :: nat) ^ 24 \<and>
   (\<exists>v. snd (PrintValues [\<lparr>req_id = 1, hitOrPageFault = PF_label\<rparr>, \<lparr>req_id = 2, hitOrPageFault = HIT_label\<rparr>,
      \<lparr>req_id = 3, hitOrPageFault = HIT_label\<rparr>]) = Fin v \<and> \<bar>v - 100 / 3\<bar> \<le> 100 / 2 ^ 22)"
proof -
  have l: "length [\<lparr>req_id = 1, hitOrPageFault = PF_label\<rparr>, \<lparr>req_id = 2, hitOrPageFault = HIT_label\<rparr>,
    \<lparr>req_id = 3, hitOrPageFault = HIT_label\<rparr>] < (2 :: nat) ^ 24" by simp
  have f: "length (filter (\<lambda>r. hitOrPageFault r = PF_label) [\<lparr>req_id = 1, hitOrPageFault = PF_label\<rparr>,
    \<lparr>req_id = 2, hitOrPageFault = HIT_label\<rparr>, \<lparr>req_id = 3, hitOrPageFault = HIT_label\<rparr>]) = 1"
    using HIT_neq_PF by simp
  from rate_within_float_error [OF _ l] f show ?thesis by auto
qed

end
