(* ===== verification/Fifo.thy ===== *)
theory Fifo
  imports Frames Output
begin

text \<open>
  The FIFO policy, \<open>SimulateFIFO\<close> (lines 237--279). On a fault with a full
  frame set the code shifts every id one slot towards slot 0 with a rotating
  temporary (lines 258--262) and writes the new page into the last slot
  (line 263); on a fault with a free slot it fills the first free slot; on a
  hit it changes nothing. The theory proves the shift loop equal to a rotation,
  the policy a refinement of a queue of resident pages with capacity
  \<open>totalFrames\<close> (the abstract FIFO of the specification), and the frame
  invariant preserved by every step. It ends with claim C1, \<open>SimulateFIFO\<close>
  against that reference simulator, and C31, a hit changing no later step.
\<close>

section \<open>The eviction\<close>

text \<open>
  The shift loop of lines 259--262,
  \<open>for (i = 0; i < totalFrames - 1; i++) { q[i].id = q[i+1].id; q[i+1].id = tempID; }\<close>,
  as recursion over the block; \<open>t\<close> is \<open>tempID\<close>, the id slot 0 held before the loop.
\<close>

fun fifo_shift :: "int \<Rightarrow> sim_node list \<Rightarrow> sim_node list" where
  "fifo_shift t (a # b # rest) = a\<lparr>sim_id := sim_id b\<rparr> # fifo_shift t (b\<lparr>sim_id := t\<rparr> # rest)"
| "fifo_shift t xs = xs"

text \<open>Lines 258--263: remember slot 0, shift, write the page into the last slot.
  \<open>totalFrames \<ge> 1\<close> holds on every call (checked by \<open>CheckAndInitialiseInput\<close>);
  the empty block, where the C code would read outside the allocation, is left
  unchanged.\<close>

definition fifo_evict :: "int \<Rightarrow> sim_node list \<Rightarrow> sim_node list" where
  "fifo_evict x ss =
     (case ss of
        [] \<Rightarrow> []
      | s # _ \<Rightarrow>
          (let ss' = fifo_shift (sim_id s) ss; n = length ss
           in ss'[n - 1 := (ss' ! (n - 1))\<lparr>sim_id := x\<rparr>]))"

section \<open>One reference, the loop, the simulation\<close>

text \<open>The body of the \<open>while\<close> loop (lines 249--273) for one dequeued reference
  \<open>x\<close>: the frame set after it, and the labelled request enqueued to the output.\<close>

definition fifo_step :: "sim_node list \<Rightarrow> int \<Rightarrow> sim_node list \<times> page_request" where
  "fifo_step ss x =
     (if SimContains ss x then (ss, \<lparr>req_id = x, hitOrPageFault = HIT_label\<rparr>)
      else (if IsSimFull ss then fifo_evict x ss else fill_free x ss,
            \<lparr>req_id = x, hitOrPageFault = PF_label\<rparr>))"

text \<open>The \<open>while (!IsQueueEmpty(inputQueue))\<close> loop (lines 248--274): the input
  queue is consumed front to back, each labelled request is appended to the output
  queue.\<close>

fun fifo_loop :: "sim_node list \<Rightarrow> int list \<Rightarrow> page_request list \<Rightarrow> sim_node list \<times> page_request list" where
  "fifo_loop ss [] out = (ss, out)"
| "fifo_loop ss (x # xs) out =
     (let (ss', r) = fifo_step ss x in fifo_loop ss' xs (out @ [r]))"

text \<open>The initialisation loop (lines 244--246) sets every id to \<open>-1\<close> and leaves
  \<open>timesRequested\<close> as \<open>malloc\<close> returned it: \<open>blk\<close> is the uninitialised block.\<close>

definition fifo_init :: "sim_node list \<Rightarrow> sim_node list" where
  "fifo_init blk = map (\<lambda>s. s\<lparr>sim_id := FREE\<rparr>) blk"

text \<open>\<open>SimulateFIFO\<close>: initialise, run the loop on the trace, print the output
  queue.\<close>

definition SimulateFIFO :: "sim_node list \<Rightarrow> int list \<Rightarrow> string list \<times> c_float" where
  "SimulateFIFO blk trace = PrintValues (snd (fifo_loop (fifo_init blk) trace []))"

section \<open>The abstract FIFO\<close>

text \<open>The specification's FIFO policy on the queue of resident pages, oldest
  first, with capacity \<open>cap\<close>.\<close>

definition fifo_ref :: "nat \<Rightarrow> int list \<Rightarrow> int \<Rightarrow> int list" where
  "fifo_ref cap q x =
     (if x \<in> set q then q else if length q < cap then q @ [x] else tl q @ [x])"

text \<open>The abstract simulator: the hit/fault classification of a trace under the
  abstract FIFO, from the resident queue \<open>q\<close>.\<close>

fun fifo_ref_hits :: "nat \<Rightarrow> int list \<Rightarrow> int list \<Rightarrow> bool list" where
  "fifo_ref_hits cap q [] = []"
| "fifo_ref_hits cap q (x # xs) = (x \<in> set q) # fifo_ref_hits cap (fifo_ref cap q x) xs"

section \<open>Lemmas on the eviction\<close>

lemma length_fifo_shift [simp]: "length (fifo_shift t ss) = length ss"
  by (induction t ss rule: fifo_shift.induct) auto

lemma times_fifo_shift [simp]:
  "map timesRequested (fifo_shift t ss) = map timesRequested ss"
  by (induction t ss rule: fifo_shift.induct) auto

text \<open>The loop keeps \<open>tempID\<close> in the slot it is about to read, so it rotates the
  ids by one: an induction whose hypothesis is exactly that loop invariant.\<close>

lemma fifo_shift_rotates:
  "sim_id a = t \<Longrightarrow> map sim_id (fifo_shift t (a # rest)) = map sim_id rest @ [t]"
proof (induction rest arbitrary: a)
  case Nil
  then show ?case by simp
next
  case (Cons b rest)
  have "map sim_id (fifo_shift t (b\<lparr>sim_id := t\<rparr> # rest)) = map sim_id rest @ [t]"
    by (rule Cons.IH) simp
  then show ?case by simp
qed

lemma length_fifo_evict [simp]: "length (fifo_evict x ss) = length ss"
  by (simp add: fifo_evict_def Let_def split: list.split)

lemma fifo_evict_ids:
  "ss \<noteq> [] \<Longrightarrow> map sim_id (fifo_evict x ss) = tl (map sim_id ss) @ [x]"
proof -
  assume "ss \<noteq> []"
  then obtain s rest where ss: "ss = s # rest" by (cases ss) auto
  let ?ss' = "fifo_shift (sim_id s) ss"
  have ids: "map sim_id ?ss' = map sim_id rest @ [sim_id s]"
    using ss fifo_shift_rotates [of s "sim_id s" rest] by simp
  have "map sim_id (fifo_evict x ss) = (map sim_id ?ss')[length rest := x]"
    by (simp add: fifo_evict_def ss map_update Let_def)
  also have "\<dots> = map sim_id rest @ [x]"
    using ids by (simp add: list_update_append)
  finally show ?thesis using ss by simp
qed

lemma times_fifo_evict [simp]:
  "map timesRequested (fifo_evict x ss) = map timesRequested ss"
  by (simp add: fifo_evict_def Let_def times_update_id split: list.split)

section \<open>Refinement of the abstract FIFO\<close>

lemma residents_full:
  "FREE \<notin> sim_id ` set ss \<Longrightarrow> residents ss = map sim_id ss"
  unfolding residents_def by (rule filter_True) force

lemma fifo_evict_residents:
  assumes "frames_inv ss" "IsSimFull ss" "ss \<noteq> []" "x \<noteq> FREE"
  shows "residents (fifo_evict x ss) = tl (residents ss) @ [x]"
proof -
  from assms(3) obtain s rest where ss: "ss = s # rest" by (cases ss) auto
  have ids: "map sim_id (fifo_evict x ss) = map sim_id rest @ [x]"
    using fifo_evict_ids [OF assms(3), of x] ss by simp
  from assms(2) ss have "FREE \<notin> sim_id ` set rest" by (simp add: IsSimFull_iff)
  with assms(4) have "FREE \<notin> set (map sim_id (fifo_evict x ss))"
    by (simp only: ids) auto
  then have "residents (fifo_evict x ss) = map sim_id (fifo_evict x ss)"
    by (intro residents_full) simp
  with ids have "residents (fifo_evict x ss) = map sim_id rest @ [x]" by simp
  moreover from assms(2) have "residents ss = map sim_id ss"
    by (simp add: residents_full IsSimFull_iff)
  ultimately show ?thesis using ss by simp
qed

lemma fifo_evict_no_free:
  assumes "IsSimFull ss" "ss \<noteq> []" "x \<noteq> FREE"
  shows "FREE \<notin> sim_id ` set (fifo_evict x ss)"
proof -
  from assms(2) obtain s rest where ss: "ss = s # rest" by (cases ss) auto
  have "map sim_id (fifo_evict x ss) = map sim_id rest @ [x]"
    using fifo_evict_ids [OF assms(2), of x] ss by simp
  then have "sim_id ` set (fifo_evict x ss) = sim_id ` set rest \<union> {x}"
    by (metis list.set_map set_append empty_set list.simps(15))
  with assms(1,3) ss show ?thesis by (simp add: IsSimFull_iff)
qed

lemma frames_inv_fifo_evict:
  assumes "frames_inv ss" "IsSimFull ss" "ss \<noteq> []" "x \<noteq> FREE" "x \<notin> set (residents ss)"
  shows "frames_inv (fifo_evict x ss)"
proof -
  have nf: "FREE \<notin> sim_id ` set (fifo_evict x ss)"
    using assms(2-4) by (rule fifo_evict_no_free)
  from assms(2) have "residents ss = map sim_id ss" by (simp add: residents_full IsSimFull_iff)
  with assms(1) have "distinct (map sim_id ss)" by (simp add: frames_inv_def)
  with assms(5) \<open>residents ss = map sim_id ss\<close> have "distinct (tl (map sim_id ss) @ [x])"
    by (cases ss) auto
  then show ?thesis
    using frames_inv_no_free [OF nf] fifo_evict_ids [OF assms(3)] by simp
qed

text \<open>One step of the code moves the resident queue exactly as the abstract FIFO
  does, and keeps the frame invariant.\<close>

lemma fifo_step_residents:
  assumes "frames_inv ss" "ss \<noteq> []" "x \<noteq> FREE"
  shows "residents (fst (fifo_step ss x)) = fifo_ref (length ss) (residents ss) x"
  using fifo_evict_residents [OF assms(1) _ assms(2,3)] residents_fill_free(1) [OF assms(1) _ assms(3)]
    IsSimFull_residents [of ss] length_residents_le [of ss] frames_inv_contains [OF assms(3)]
  by (auto simp: fifo_step_def fifo_ref_def)

lemma fifo_step_inv:
  assumes "frames_inv ss" "ss \<noteq> []" "x \<noteq> FREE"
  shows "frames_inv (fst (fifo_step ss x))"
  using assms(1) frames_inv_fifo_evict [OF assms(1) _ assms(2,3)]
    frames_inv_fill_free [OF assms(1) _ assms(3)] frames_inv_contains [OF assms(3)]
  by (auto simp: fifo_step_def)

lemma length_fifo_step [simp]: "length (fst (fifo_step ss x)) = length ss"
  by (simp add: fifo_step_def)

lemma fifo_step_request:
  "x \<noteq> FREE \<Longrightarrow>
   snd (fifo_step ss x) = \<lparr>req_id = x, hitOrPageFault = label_of (x \<in> set (residents ss))\<rparr>"
  by (simp add: fifo_step_def label_of_def frames_inv_contains)

section \<open>The whole run\<close>

lemma fifo_init_inv: "frames_inv (fifo_init blk)"
  and fifo_init_residents: "residents (fifo_init blk) = []"
  by (simp_all add: frames_inv_def residents_def fifo_init_def comp_def map_replicate_const)

lemma length_fifo_init [simp]: "length (fifo_init blk) = length blk"
  by (simp add: fifo_init_def)

text \<open>The run of the code produces, after whatever was already in the output
  queue, one request per reference of the trace, labelled as the abstract FIFO
  classifies it; the resident queue at the end is the abstract one.\<close>

lemma fifo_loop_refines:
  assumes "frames_inv ss" "ss \<noteq> []" "FREE \<notin> set xs"
  shows "snd (fifo_loop ss xs out) =
           out @ map2 (\<lambda>x h. \<lparr>req_id = x, hitOrPageFault = label_of h\<rparr>) xs
                   (fifo_ref_hits (length ss) (residents ss) xs)
         \<and> residents (fst (fifo_loop ss xs out)) = fold (\<lambda>x q. fifo_ref (length ss) q x) xs (residents ss)
         \<and> frames_inv (fst (fifo_loop ss xs out))"
  using assms
proof (induction xs arbitrary: ss out)
  case Nil
  then show ?case by simp
next
  case (Cons x xs)
  let ?ss' = "fst (fifo_step ss x)"
  from Cons.prems have x: "x \<noteq> FREE" and xs: "FREE \<notin> set xs" by auto
  have inv': "frames_inv ?ss'" using fifo_step_inv [OF Cons.prems(1,2) x] .
  from Cons.prems(2) have ne': "?ss' \<noteq> []" by (metis length_fifo_step length_0_conv)
  have res': "residents ?ss' = fifo_ref (length ss) (residents ss) x"
    using fifo_step_residents [OF Cons.prems(1,2) x] .
  have run: "fifo_loop ss (x # xs) out = fifo_loop ?ss' xs (out @ [snd (fifo_step ss x)])"
    by (simp add: split_beta)
  show ?case
    using Cons.IH [OF inv' ne' xs, of "out @ [snd (fifo_step ss x)]"]
    by (simp only: run length_fifo_step res') (simp add: fifo_step_request [OF x])
qed

section \<open>Runs that depend only on the ids\<close>

lemma fifo_loop_req_ids: "map req_id (snd (fifo_loop ss xs out)) = map req_id out @ xs"
  by (induction xs arbitrary: ss out) (simp_all add: split_beta fifo_step_def)

lemma fill_free_ids_cong:
  "map sim_id ss1 = map sim_id ss2 \<Longrightarrow> map sim_id (fill_free x ss1) = map sim_id (fill_free x ss2)"
proof (induction ss1 arbitrary: ss2)
  case Nil
  then show ?case by simp
next
  case (Cons s ss1)
  then obtain t ss2' where "ss2 = t # ss2'" "sim_id t = sim_id s" "map sim_id ss1 = map sim_id ss2'"
    by (cases ss2) auto
  with Cons.IH show ?case by simp
qed

lemma fifo_step_ids_cong:
  assumes "map sim_id ss1 = map sim_id ss2"
  shows "map sim_id (fst (fifo_step ss1 x)) = map sim_id (fst (fifo_step ss2 x))
         \<and> snd (fifo_step ss1 x) = snd (fifo_step ss2 x)"
proof -
  have "set (map sim_id ss1) = set (map sim_id ss2)" using assms by (rule arg_cong)
  then have img: "sim_id ` set ss1 = sim_id ` set ss2" by simp
  have ev: "map sim_id (fifo_evict x ss1) = map sim_id (fifo_evict x ss2)"
  proof (cases "ss1 = []")
    case True
    with assms show ?thesis by (simp add: fifo_evict_def)
  next
    case False
    with assms have "ss2 \<noteq> []" by auto
    with False show ?thesis by (simp add: fifo_evict_ids assms)
  qed
  have c: "SimContains ss1 x = SimContains ss2 x" using img by (simp add: SimContains_iff)
  have f: "IsSimFull ss1 = IsSimFull ss2" using img by (simp add: IsSimFull_iff)
  show ?thesis
    unfolding fifo_step_def c f using assms ev fill_free_ids_cong [OF assms, of x] by simp
qed

lemma fifo_loop_ids_cong:
  "map sim_id ss1 = map sim_id ss2 \<Longrightarrow> snd (fifo_loop ss1 xs out) = snd (fifo_loop ss2 xs out)"
proof (induction xs arbitrary: ss1 ss2 out)
  case Nil
  then show ?case by simp
next
  case (Cons x xs)
  from fifo_step_ids_cong [OF Cons.prems, of x]
  have ids: "map sim_id (fst (fifo_step ss1 x)) = map sim_id (fst (fifo_step ss2 x))"
    and req: "snd (fifo_step ss1 x) = snd (fifo_step ss2 x)" by auto
  have "snd (fifo_loop (fst (fifo_step ss1 x)) xs (out @ [snd (fifo_step ss1 x)])) =
        snd (fifo_loop (fst (fifo_step ss2 x)) xs (out @ [snd (fifo_step ss1 x)]))"
    by (rule Cons.IH [OF ids])
  then show ?case by (simp add: split_beta req)
qed

text \<open>With a single frame every reference leaves exactly that page resident.\<close>

lemma fifo_step_single:
  assumes "length ss = 1"
  shows "map sim_id (fst (fifo_step ss x)) = [x]"
proof -
  from assms obtain s where ss: "ss = [s]" by (cases ss) auto
  have "fifo_evict x [s] = [s\<lparr>sim_id := x\<rparr>]" by (simp add: fifo_evict_def)
  then show ?thesis by (simp add: ss fifo_step_def SimContains_iff IsSimFull_iff)
qed

lemma fifo_loop_single:
  "length ss = 1 \<Longrightarrow>
   snd (fifo_loop ss xs out) =
     out @ map2 (\<lambda>p x. \<lparr>req_id = x, hitOrPageFault = label_of (p = x)\<rparr>) (sim_id (hd ss) # xs) xs"
proof (induction xs arbitrary: ss out)
  case Nil
  then show ?case by simp
next
  case (Cons x xs)
  let ?ss' = "fst (fifo_step ss x)"
  from Cons.prems have one: "length ?ss' = 1" by simp
  have hd': "sim_id (hd ?ss') = x"
    using fifo_step_single [OF Cons.prems, of x] one by (cases ?ss') auto
  from Cons.prems obtain s where "ss = [s]" by (cases ss) auto
  then have "snd (fifo_step ss x) = \<lparr>req_id = x, hitOrPageFault = label_of (sim_id (hd ss) = x)\<rparr>"
    by (auto simp: fifo_step_def label_of_def SimContains_iff)
  with Cons.IH [OF one] hd' show ?case by (simp add: split_beta)
qed

section \<open>Enough frames for every page\<close>

lemma length_fifo_ref_hits [simp]: "length (fifo_ref_hits cap q xs) = length xs"
  by (induction xs arbitrary: q) auto

text \<open>When the frames can hold every page of the trace, the abstract FIFO never
  evicts: each page faults once, on its first reference.\<close>

lemma fifo_ref_faults_no_eviction:
  "distinct q \<Longrightarrow> card (set q \<union> set xs) \<le> cap \<Longrightarrow>
   length (filter Not (fifo_ref_hits cap q xs)) = card (set xs - set q)"
proof (induction xs arbitrary: q)
  case Nil
  then show ?case by simp
next
  case (Cons x xs)
  show ?case
  proof (cases "x \<in> set q")
    case True
    with Cons.IH [OF Cons.prems(1)] Cons.prems(2) show ?thesis
      by (simp add: fifo_ref_def insert_absorb Un_insert_right)
  next
    case False
    have "card (insert x (set q)) \<le> card (set q \<union> set (x # xs))"
      by (intro card_mono) auto
    with Cons.prems False have lt: "length q < cap" by (simp add: distinct_card)
    have d: "distinct (q @ [x])" using Cons.prems(1) False by simp
    have c: "card (set (q @ [x]) \<union> set xs) \<le> cap" using Cons.prems(2) by (simp add: Un_commute insert_commute)
    have "card (set (x # xs) - set q) = Suc (card (set xs - set (q @ [x])))"
    proof -
      have "set (x # xs) - set q = insert x (set xs - set (q @ [x]))" using False by auto
      then show ?thesis by simp
    qed
    with Cons.IH [OF d c] False lt show ?thesis by (simp add: fifo_ref_def)
  qed
qed

section \<open>Invariants and the FIFO window\<close>

text \<open>A full frame set stays full: a hit changes nothing, a fault on a full set
  evicts into the last slot. On pages that are all new and distinct, the
  abstract FIFO holds the last \<open>cap\<close> pages requested.\<close>

lemma fifo_step_full:
  assumes "IsSimFull ss" "x \<noteq> FREE"
  shows "IsSimFull (fst (fifo_step ss x))"
proof (cases "ss = []")
  case True
  then show ?thesis by (simp add: fifo_step_def fifo_evict_def)
next
  case False
  with fifo_evict_no_free [OF assms(1) False assms(2)] assms(1) show ?thesis
    by (simp add: fifo_step_def IsSimFull_iff)
qed

lemma fifo_ref_fresh:
  assumes "0 < cap" "length q \<le> cap" "x \<notin> set q"
  shows "fifo_ref cap q x = drop (length q + 1 - cap) (q @ [x])"
proof (cases "length q < cap")
  case True
  then show ?thesis using assms(3) by (simp add: fifo_ref_def)
next
  case False
  with assms(2) have "length q = cap" by simp
  with assms(1,3) show ?thesis by (cases q) (simp_all add: fifo_ref_def)
qed

lemma fifo_ref_window:
  assumes "0 < cap" "length q \<le> cap" "distinct (q @ xs)"
  shows "fold (\<lambda>x q. fifo_ref cap q x) xs q = drop (length q + length xs - cap) (q @ xs)"
  using assms(2,3)
proof (induction xs arbitrary: q)
  case Nil
  then show ?case by simp
next
  case (Cons x xs)
  have x: "x \<notin> set q" using Cons.prems(2) by simp
  let ?k = "length q + 1 - cap"
  have q': "fifo_ref cap q x = drop ?k (q @ [x])" using fifo_ref_fresh [OF assms(1) Cons.prems(1) x] .
  have l': "length (fifo_ref cap q x) \<le> cap" using q' Cons.prems(1) by simp
  have e: "fifo_ref cap q x @ xs = drop ?k (q @ x # xs)" using q' assms(1) by simp
  have d': "distinct (fifo_ref cap q x @ xs)" unfolding e using Cons.prems(2) by (rule distinct_drop)
  have "fold (\<lambda>x q. fifo_ref cap q x) (x # xs) q =
      drop (length (fifo_ref cap q x) + length xs - cap) (fifo_ref cap q x @ xs)"
    using Cons.IH [OF l' d'] by simp
  also note e
  also have "length (fifo_ref cap q x) = length q + 1 - ?k" using q' by simp
  also have "drop (length q + 1 - ?k + length xs - cap) (drop ?k (q @ x # xs)) =
             drop (length q + length (x # xs) - cap) (q @ x # xs)"
  proof -
    have "length q + 1 - ?k + length xs - cap + ?k = length q + length (x # xs) - cap"
      using Cons.prems(1) by (cases "length q < cap") simp_all
    then show ?thesis by (simp only: drop_drop)
  qed
  finally show ?case .
qed


section \<open>Classification and the ids the frames can hold\<close>

lemma fifo_step_classify:
  "snd (fifo_step ss x) = \<lparr>req_id = x, hitOrPageFault = label_of (SimContains ss x)\<rparr>"
  by (simp add: fifo_step_def label_of_def)

lemma fifo_step_id_set: "sim_id ` set (fst (fifo_step ss x)) \<subseteq> insert x (sim_id ` set ss)"
proof (cases "ss = []")
  case False
  then have "set (map sim_id (fifo_evict x ss)) \<subseteq> insert x (set (map sim_id ss))"
    using fifo_evict_ids [OF False, of x] by (cases ss) auto
  then show ?thesis using fill_free_id_set [of x ss] by (auto simp: fifo_step_def)
qed (simp add: fifo_step_def fifo_evict_def)

lemma fifo_init_id_set: "sim_id ` set (fifo_init blk) \<subseteq> {FREE}"
  by (auto simp: fifo_init_def)

section \<open>FIFO against the reference simulator\<close>

text \<open>C1: On every trace that does not contain the free-slot sentinel \<open>-1\<close> and
  every frame count of at least one, \<open>SimulateFIFO\<close> prints exactly what an
  independently written FIFO simulator (a queue of resident pages, oldest
  evicted first, no promotion on a hit) classifies, reference by reference, in
  input order. The initial contents of the malloc'd block are arbitrary.\<close>

theorem SimulateFIFO_matches_reference:
  assumes "blk \<noteq> []" and "FREE \<notin> set trace"
  shows "SimulateFIFO blk trace =
           PrintValues (map2 (\<lambda>x h. \<lparr>req_id = x, hitOrPageFault = label_of h\<rparr>) trace
                          (fifo_ref_hits (length blk) [] trace))"
proof -
  from assms(1) have ne: "fifo_init blk \<noteq> []" by (simp add: fifo_init_def)
  have "snd (fifo_loop (fifo_init blk) trace []) =
          map2 (\<lambda>x h. \<lparr>req_id = x, hitOrPageFault = label_of h\<rparr>) trace
            (fifo_ref_hits (length blk) [] trace)"
    using fifo_loop_refines [OF fifo_init_inv ne assms(2), of "[]"]
    by (simp add: fifo_init_residents)
  then show ?thesis by (simp add: SimulateFIFO_def)
qed

theorem SimulateFIFO_matches_reference_witness:
  "[\<lparr>sim_id = 7, timesRequested = 3\<rparr>] \<noteq> [] \<and> FREE \<notin> set [1, 1, 2 :: int] \<and>
   SimulateFIFO [\<lparr>sim_id = 7, timesRequested = 3\<rparr>] [1, 1, 2] =
     PrintValues (map2 (\<lambda>x h. \<lparr>req_id = x, hitOrPageFault = label_of h\<rparr>) [1, 1, 2]
                    (fifo_ref_hits 1 [] [1, 1, 2]))"
  using SimulateFIFO_matches_reference [of "[\<lparr>sim_id = 7, timesRequested = 3\<rparr>]" "[1, 1, 2]"]
  by simp


section \<open>Hits\<close>

text \<open>C31: Under FIFO a hit changes nothing but the output: the run after a
  reference to a resident page is the run without that reference, so
  re-accessing a page never changes the future eviction order (no promotion).\<close>

theorem fifo_hit_no_promotion:
  assumes "SimContains ss x"
  shows "fifo_loop ss (x # xs) out = fifo_loop ss xs (out @ [\<lparr>req_id = x, hitOrPageFault = HIT_label\<rparr>])"
  using assms by (simp add: fifo_step_def)

theorem fifo_hit_no_promotion_witness:
  "SimContains [\<lparr>sim_id = 1, timesRequested = 0\<rparr>, \<lparr>sim_id = 2, timesRequested = 0\<rparr>] 1 \<and>
   fifo_loop [\<lparr>sim_id = 1, timesRequested = 0\<rparr>, \<lparr>sim_id = 2, timesRequested = 0\<rparr>] [1, 3] [] =
     fifo_loop [\<lparr>sim_id = 1, timesRequested = 0\<rparr>, \<lparr>sim_id = 2, timesRequested = 0\<rparr>] [3]
       [\<lparr>req_id = 1, hitOrPageFault = HIT_label\<rparr>]"
proof -
  have c: "SimContains [\<lparr>sim_id = 1, timesRequested = 0\<rparr>, \<lparr>sim_id = 2, timesRequested = 0\<rparr>] 1" by simp
  from fifo_hit_no_promotion [OF c, of "[3]" "[]"] c show ?thesis by simp
qed

end
