(* ===== verification/Lru.thy ===== *)
theory Lru
  imports Frames Output
begin

text \<open>
  The policy the code calls LRU, \<open>SimulateLRU\<close> (lines 281--327), which is a
  least-frequently-used policy: every slot counts the hits its page has had
  since it was loaded (\<open>timesRequested\<close>), a fault on a full frame set
  overwrites slot 0, and after every reference \<open>SortByTimesRequested\<close>
  (lines 154--171) swaps the slot with the smallest count into slot 0. The
  theory models these operations, states the specification's frequency policy
  as a step relation on the multiset of (page, count) pairs, and proves that
  every step of the code is a step of that relation: the page evicted at a
  full-set fault has the minimum count among the resident pages, a hit
  increments its page's count by one and changes no other, a load starts at
  count 0. It also bounds every count by the number of references processed.
  It holds the claims about this policy alone: C26 (only slot 0 is replaced on
  new pages) and, at the end, C2--C4 (the code against the frequency policy),
  C32 (the tie-breaking of the sort) and C33 (loads enter at count 0).
\<close>

section \<open>The operations\<close>

text \<open>The scan of \<open>SortByTimesRequested\<close> (lines 157--162): \<open>m\<close> is
  \<open>minTimesRequested\<close>, \<open>mp\<close> is \<open>minPos\<close>, \<open>i\<close> the index of the slot at the
  head of the list. A slot replaces the candidate only if its count is strictly
  smaller and it is occupied.\<close>

fun sort_scan :: "int \<Rightarrow> nat \<Rightarrow> nat \<Rightarrow> sim_node list \<Rightarrow> int \<times> nat" where
  "sort_scan m mp i [] = (m, mp)"
| "sort_scan m mp i (s # ss) =
     (if timesRequested s < m \<and> sim_id s \<noteq> FREE
      then sort_scan (timesRequested s) i (Suc i) ss
      else sort_scan m mp (Suc i) ss)"

text \<open>\<open>SortByTimesRequested\<close> (lines 154--171): start from slot 0, scan slots
  \<open>1 .. size-1\<close>, and swap both fields of slot 0 and slot \<open>minPos\<close> if they differ.
  The block is never empty on a call; for the empty one, where the C code would
  read outside the allocation, nothing is changed.\<close>

definition SortByTimesRequested :: "sim_node list \<Rightarrow> sim_node list" where
  "SortByTimesRequested ss =
     (case ss of
        [] \<Rightarrow> []
      | h # rest \<Rightarrow>
          (let (m, mp) = sort_scan (timesRequested h) 0 1 rest
           in if mp \<noteq> 0 then ss[0 := ss ! mp, mp := h] else ss))"

text \<open>The hit bookkeeping (lines 298--303): the first slot holding the page
  gets \<open>timesRequested++\<close>, then the loop breaks.\<close>

fun lru_hit :: "int \<Rightarrow> sim_node list \<Rightarrow> sim_node list" where
  "lru_hit x [] = []"
| "lru_hit x (s # ss) =
     (if sim_id s = x then s\<lparr>timesRequested := timesRequested s + 1\<rparr> # ss
      else s # lru_hit x ss)"

text \<open>The eviction on a full frame set (lines 309--310): slot 0 gets the page
  and a count of 0.\<close>

definition lru_evict :: "int \<Rightarrow> sim_node list \<Rightarrow> sim_node list" where
  "lru_evict x ss =
     (case ss of [] \<Rightarrow> [] | s # rest \<Rightarrow> s\<lparr>sim_id := x, timesRequested := 0\<rparr> # rest)"

text \<open>The body of the \<open>while\<close> loop (lines 294--321): classify, update the
  frames, and sort, on a hit and on a fault alike.\<close>

definition lru_step :: "sim_node list \<Rightarrow> int \<Rightarrow> sim_node list \<times> page_request" where
  "lru_step ss x =
     (if SimContains ss x
      then (SortByTimesRequested (lru_hit x ss), \<lparr>req_id = x, hitOrPageFault = HIT_label\<rparr>)
      else (SortByTimesRequested (if IsSimFull ss then lru_evict x ss else fill_free x ss),
            \<lparr>req_id = x, hitOrPageFault = PF_label\<rparr>))"

text \<open>The \<open>while (!IsQueueEmpty(inputQueue))\<close> loop (lines 293--322).\<close>

fun lru_loop :: "sim_node list \<Rightarrow> int list \<Rightarrow> page_request list \<Rightarrow> sim_node list \<times> page_request list" where
  "lru_loop ss [] out = (ss, out)"
| "lru_loop ss (x # xs) out =
     (let (ss', r) = lru_step ss x in lru_loop ss' xs (out @ [r]))"

text \<open>The initialisation (lines 288--291) sets both fields of every slot.\<close>

definition lru_init :: "sim_node list \<Rightarrow> sim_node list" where
  "lru_init blk = map (\<lambda>s. s\<lparr>sim_id := FREE, timesRequested := 0\<rparr>) blk"

definition SimulateLRU :: "sim_node list \<Rightarrow> int list \<Rightarrow> string list \<times> c_float" where
  "SimulateLRU blk trace = PrintValues (snd (lru_loop (lru_init blk) trace []))"

section \<open>The frequency policy of the specification\<close>

text \<open>The abstract state: the multiset of (page, count) pairs of the occupied
  slots; slot positions are forgotten.\<close>

definition slots :: "sim_node list \<Rightarrow> (int \<times> int) multiset" where
  "slots ss = mset (map (\<lambda>s. (sim_id s, timesRequested s)) (filter (\<lambda>s. sim_id s \<noteq> FREE) ss))"

text \<open>One reference under the frequency policy with capacity \<open>cap\<close>: a hit
  increments the page's count; a fault loads the page with count 0, evicting,
  when the set is full, a page whose count is minimal.\<close>

inductive freq_step :: "nat \<Rightarrow> (int \<times> int) multiset \<Rightarrow> int \<Rightarrow> (int \<times> int) multiset \<Rightarrow> bool" where
  hit: "(x, c) \<in># M \<Longrightarrow> freq_step cap M x (M - {#(x, c)#} + {#(x, c + 1)#})"
| load: "x \<notin> fst ` set_mset M \<Longrightarrow> size M < cap \<Longrightarrow> freq_step cap M x (M + {#(x, 0)#})"
| evict: "x \<notin> fst ` set_mset M \<Longrightarrow> size M = cap \<Longrightarrow> (y, c) \<in># M \<Longrightarrow>
          (\<forall>(z, d) \<in># M. c \<le> d) \<Longrightarrow> freq_step cap M x (M - {#(y, c)#} + {#(x, 0)#})"

text \<open>The states the code reaches: from the initialisation of a block of at least
  one slot, by steps on references other than the sentinel.\<close>

inductive lru_reachable :: "sim_node list \<Rightarrow> bool" where
  init: "blk \<noteq> [] \<Longrightarrow> lru_reachable (lru_init blk)"
| step: "lru_reachable ss \<Longrightarrow> x \<noteq> FREE \<Longrightarrow> lru_reachable (fst (lru_step ss x))"

text \<open>The invariant of the code's frame set: distinct resident pages, free slots
  at count 0, no negative count, and slot 0 holding a minimal count.\<close>

definition lru_inv :: "sim_node list \<Rightarrow> bool" where
  "lru_inv ss \<longleftrightarrow>
     distinct (residents ss)
     \<and> (\<forall>s \<in> set ss. sim_id s = FREE \<longrightarrow> timesRequested s = 0)
     \<and> (\<forall>s \<in> set ss. 0 \<le> timesRequested s)
     \<and> (\<forall>s \<in> set ss. sim_id s \<noteq> FREE \<longrightarrow> timesRequested (hd ss) \<le> timesRequested s)"

section \<open>Lemmas on the sort\<close>

text \<open>What the scan returns: a minimum no larger than the start, below every
  occupied slot it passed, and either the start candidate unchanged or the
  index of an occupied slot holding that minimum.\<close>

lemma sort_scan_result:
  "sort_scan m mp i ss = (m', mp') \<Longrightarrow>
   m' \<le> m \<and> (\<forall>s \<in> set ss. sim_id s \<noteq> FREE \<longrightarrow> m' \<le> timesRequested s) \<and>
   ((mp' = mp \<and> m' = m) \<or>
    (i \<le> mp' \<and> mp' < i + length ss \<and> sim_id (ss ! (mp' - i)) \<noteq> FREE \<and>
     timesRequested (ss ! (mp' - i)) = m'))"
proof (induction m mp i ss arbitrary: m' mp' rule: sort_scan.induct)
  case (1 m mp i)
  then show ?case by simp
next
  case (2 m mp i s ss)
  show ?case
  proof (cases "timesRequested s < m \<and> sim_id s \<noteq> FREE")
    case True
    with "2.prems" have "sort_scan (timesRequested s) i (Suc i) ss = (m', mp')" by simp
    with True "2.IH"(1) show ?thesis
      by (auto simp: nth_Cons' Suc_diff_le)
  next
    case False
    with "2.prems" have "sort_scan m mp (Suc i) ss = (m', mp')" by simp
    with False "2.IH"(2) show ?thesis
      by (auto simp: nth_Cons' Suc_diff_le)
  qed
qed

text \<open>A swap position is reached only past occupied slots of strictly larger
  count: the scan keeps the first slot with the minimum.\<close>

lemma sort_scan_first:
  "sort_scan m mp i ss = (m', mp') \<Longrightarrow>
   (mp' = mp \<and> m' = m \<and> (\<forall>s \<in> set ss. sim_id s \<noteq> FREE \<longrightarrow> m \<le> timesRequested s)) \<or>
   (i \<le> mp' \<and> mp' < i + length ss \<and> m' < m \<and>
    (\<forall>j < mp' - i. sim_id (ss ! j) \<noteq> FREE \<longrightarrow> m' < timesRequested (ss ! j)))"
proof (induction m mp i ss arbitrary: m' mp' rule: sort_scan.induct)
  case (1 m mp i)
  then show ?case by simp
next
  case (2 m mp i s ss)
  show ?case
  proof (cases "timesRequested s < m \<and> sim_id s \<noteq> FREE")
    case True
    with "2.prems" have sc: "sort_scan (timesRequested s) i (Suc i) ss = (m', mp')" by simp
    from "2.IH"(1) [OF True sc] show ?thesis
    proof
      assume "mp' = i \<and> m' = timesRequested s \<and>
          (\<forall>t \<in> set ss. sim_id t \<noteq> FREE \<longrightarrow> timesRequested s \<le> timesRequested t)"
      then show ?thesis using True by simp
    next
      assume a: "Suc i \<le> mp' \<and> mp' < Suc i + length ss \<and> m' < timesRequested s \<and>
          (\<forall>j < mp' - Suc i. sim_id (ss ! j) \<noteq> FREE \<longrightarrow> m' < timesRequested (ss ! j))"
      have "\<forall>j < mp' - i. sim_id ((s # ss) ! j) \<noteq> FREE \<longrightarrow> m' < timesRequested ((s # ss) ! j)"
      proof (intro allI impI)
        fix j assume j: "j < mp' - i" and occ: "sim_id ((s # ss) ! j) \<noteq> FREE"
        show "m' < timesRequested ((s # ss) ! j)"
        proof (cases j)
          case 0
          then show ?thesis using a by simp
        next
          case (Suc j')
          with j a have "j' < mp' - Suc i" by simp
          with a occ Suc show ?thesis by simp
        qed
      qed
      moreover have "i \<le> mp'" "mp' < i + length (s # ss)" "m' < m" using a True by simp_all
      ultimately show ?thesis by blast
    qed
  next
    case False
    with "2.prems" have sc: "sort_scan m mp (Suc i) ss = (m', mp')" by simp
    from "2.IH"(2) [OF False sc] False show ?thesis
      by (auto simp: nth_Cons' less_Suc_eq_0_disj)
  qed
qed

lemma SortByTimesRequested_cases:
  obtains (empty) "ss = []" "SortByTimesRequested ss = []"
  | (swap) h rest mp where "ss = h # rest" "0 < mp" "mp < length ss"
      "SortByTimesRequested ss = ss[0 := ss ! mp, mp := h]"
      "sim_id (ss ! mp) \<noteq> FREE"
      "\<forall>s \<in> set ss. sim_id s \<noteq> FREE \<longrightarrow> timesRequested (ss ! mp) \<le> timesRequested s"
  | (min) h rest where "ss = h # rest" "SortByTimesRequested ss = ss"
      "\<forall>s \<in> set ss. sim_id s \<noteq> FREE \<longrightarrow> timesRequested h \<le> timesRequested s"
proof (cases ss)
  case Nil
  then show ?thesis using empty by (simp add: SortByTimesRequested_def)
next
  case (Cons h rest)
  obtain m' mp' where sc: "sort_scan (timesRequested h) 0 1 rest = (m', mp')"
    by (cases "sort_scan (timesRequested h) 0 1 rest")
  note r = sort_scan_result [OF sc]
  show ?thesis
  proof (cases "mp' = 0")
    case True
    with r have "m' = timesRequested h" by auto
    with r True Cons sc show ?thesis
      using min [of h rest] by (auto simp: SortByTimesRequested_def)
  next
    case False
    with r have mp: "1 \<le> mp'" "mp' < 1 + length rest" "sim_id (rest ! (mp' - 1)) \<noteq> FREE"
      "timesRequested (rest ! (mp' - 1)) = m'" by auto
    have nth: "ss ! mp' = rest ! (mp' - 1)" using Cons mp(1) by (simp add: nth_Cons')
    show ?thesis
    proof (rule swap [of h rest mp'])
      show "SortByTimesRequested ss = ss[0 := ss ! mp', mp' := h]"
        using Cons sc False by (simp add: SortByTimesRequested_def)
      show "\<forall>s \<in> set ss. sim_id s \<noteq> FREE \<longrightarrow> timesRequested (ss ! mp') \<le> timesRequested s"
        using r mp nth Cons by auto
    qed (use Cons mp nth in auto)
  qed
qed

lemma mset_SortByTimesRequested [simp]: "mset (SortByTimesRequested ss) = mset ss"
proof (cases ss rule: SortByTimesRequested_cases)
  case (swap h rest mp)
  then show ?thesis using mset_swap [of mp ss 0] by simp
qed simp_all

lemma set_SortByTimesRequested [simp]: "set (SortByTimesRequested ss) = set ss"
  by (metis mset_SortByTimesRequested set_mset_mset)

lemma length_SortByTimesRequested [simp]: "length (SortByTimesRequested ss) = length ss"
  by (metis mset_SortByTimesRequested size_mset)

text \<open>After the sort, slot 0 holds a count no larger than that of any resident
  page, whatever the block held before.\<close>

lemma SortByTimesRequested_hd_min:
  assumes "s \<in> set ss" "sim_id s \<noteq> FREE"
  shows "timesRequested (hd (SortByTimesRequested ss)) \<le> timesRequested s"
proof (cases ss rule: SortByTimesRequested_cases)
  case empty
  then show ?thesis using assms by simp
next
  case (swap h rest mp)
  then have "hd (SortByTimesRequested ss) = ss ! mp" by (cases mp) auto
  with swap(6) assms show ?thesis by fastforce
next
  case (min h rest)
  then show ?thesis using assms by fastforce
qed

section \<open>Lemmas on the abstraction\<close>

lemma slots_Nil [simp]: "slots [] = {#}"
  by (simp add: slots_def)

lemma slots_Cons [simp]:
  "slots (s # ss) =
     (if sim_id s = FREE then slots ss else add_mset (sim_id s, timesRequested s) (slots ss))"
  by (simp add: slots_def)

lemma slots_mset: "slots ss = image_mset (\<lambda>s. (sim_id s, timesRequested s)) (filter_mset (\<lambda>s. sim_id s \<noteq> FREE) (mset ss))"
  by (simp add: slots_def)

lemma mset_residents:
  "mset (residents ss) = image_mset sim_id (filter_mset (\<lambda>s. sim_id s \<noteq> FREE) (mset ss))"
  by (simp add: residents_def filter_map comp_def flip: mset_filter)

lemma slots_Sort [simp]: "slots (SortByTimesRequested ss) = slots ss"
  by (simp add: slots_mset)

lemma distinct_residents_Sort [simp]:
  "distinct (residents (SortByTimesRequested ss)) = distinct (residents ss)"
  by (rule mset_eq_imp_distinct_iff) (simp add: mset_residents)

lemma size_slots: "size (slots ss) = length (residents ss)"
  by (induction ss) auto

lemma fst_slots: "fst ` set_mset (slots ss) = set (residents ss)"
  by (induction ss) auto

lemma in_slots: "(x, c) \<in># slots ss \<longleftrightarrow> (\<exists>s \<in> set ss. sim_id s = x \<and> timesRequested s = c \<and> x \<noteq> FREE)"
  by (induction ss) auto

text \<open>The hit: the page's count goes up by one, nothing else changes.\<close>

lemma ids_lru_hit [simp]: "map sim_id (lru_hit x ss) = map sim_id ss"
  by (induction ss) auto

lemma length_lru_hit [simp]: "length (lru_hit x ss) = length ss"
  by (induction ss) auto

lemma residents_lru_hit [simp]: "residents (lru_hit x ss) = residents ss"
  by (simp add: residents_def)

lemma slots_lru_hit:
  assumes "distinct (residents ss)" "(x, c) \<in># slots ss"
  shows "slots (lru_hit x ss) + {#(x, c)#} = slots ss + {#(x, c + 1)#}"
  using assms
proof (induction ss)
  case Nil
  then show ?case by simp
next
  case (Cons s ss)
  show ?case
  proof (cases "sim_id s = x")
    case True
    from Cons.prems(2) have "x \<noteq> FREE" by (simp only: in_slots) blast
    with True Cons.prems(1) have "x \<notin> set (residents ss)" by simp
    then have "(x, c) \<notin># slots ss" by (auto simp: in_slots set_residents)
    with True Cons.prems(2) have "c = timesRequested s" by (auto split: if_splits)
    with True \<open>x \<noteq> FREE\<close> show ?thesis by simp
  next
    case False
    with Cons.prems have "distinct (residents ss)" "(x, c) \<in># slots ss"
      by (auto split: if_splits)
    with Cons.IH False show ?thesis by (simp add: add_mset_commute)
  qed
qed

lemma set_lru_hit:
  "t \<in> set (lru_hit x ss) \<Longrightarrow>
   t \<in> set ss \<or> (\<exists>s \<in> set ss. sim_id s = x \<and> t = s\<lparr>timesRequested := timesRequested s + 1\<rparr>)"
  by (induction ss) (auto split: if_splits)

text \<open>The eviction: slot 0 is replaced by the page at count 0.\<close>

lemma slots_lru_evict:
  "ss = s # rest \<Longrightarrow> sim_id s \<noteq> FREE \<Longrightarrow> x \<noteq> FREE \<Longrightarrow>
   slots (lru_evict x ss) = slots ss - {#(sim_id s, timesRequested s)#} + {#(x, 0)#}"
  by (simp add: lru_evict_def)

lemma residents_lru_evict:
  "ss = s # rest \<Longrightarrow> sim_id s \<noteq> FREE \<Longrightarrow> x \<noteq> FREE \<Longrightarrow>
   residents (lru_evict x ss) = x # tl (residents ss)"
  by (simp add: lru_evict_def)

lemma set_lru_evict:
  "t \<in> set (lru_evict x ss) \<Longrightarrow> t \<in> set ss \<or> (sim_id t = x \<and> timesRequested t = 0)"
  by (auto simp: lru_evict_def split: list.splits)

text \<open>The load into a free slot: the page enters at the count the free slot had.\<close>

lemma slots_fill_free:
  assumes "\<not> IsSimFull ss" "\<forall>s \<in> set ss. sim_id s = FREE \<longrightarrow> timesRequested s = 0" "x \<noteq> FREE"
  shows "slots (fill_free x ss) = slots ss + {#(x, 0)#}"
  using assms by (induction ss) (auto simp: IsSimFull_iff add_mset_commute)

lemma set_fill_free:
  "t \<in> set (fill_free x ss) \<Longrightarrow>
   t \<in> set ss \<or> (\<exists>s \<in> set ss. sim_id s = FREE \<and> t = s\<lparr>sim_id := x\<rparr>)"
  by (induction ss) (auto split: if_splits)

lemma set_residents_fill_free:
  "set (residents (fill_free x ss)) \<subseteq> insert x (set (residents ss))"
  by (induction ss) auto

lemma distinct_residents_fill_free:
  "distinct (residents ss) \<Longrightarrow> x \<notin> set (residents ss) \<Longrightarrow> x \<noteq> FREE \<Longrightarrow>
   distinct (residents (fill_free x ss))"
proof (induction ss)
  case Nil
  then show ?case by simp
next
  case (Cons s ss)
  then show ?case using set_residents_fill_free [of x ss] by (auto split: if_splits)
qed

section \<open>Each step of the code is a step of the frequency policy\<close>

text \<open>The sort establishes the last conjunct of the invariant from the others.\<close>

lemma lru_inv_Sort:
  assumes "distinct (residents ss)"
    "\<forall>s \<in> set ss. sim_id s = FREE \<longrightarrow> timesRequested s = 0"
    "\<forall>s \<in> set ss. 0 \<le> timesRequested s"
  shows "lru_inv (SortByTimesRequested ss)"
  using assms SortByTimesRequested_hd_min [of _ ss] by (simp add: lru_inv_def)

lemma lru_step_refines:
  assumes "lru_inv ss" "ss \<noteq> []" "x \<noteq> FREE"
  shows "freq_step (length ss) (slots ss) x (slots (fst (lru_step ss x)))"
proof (cases "SimContains ss x")
  case True
  then have "x \<in> fst ` set_mset (slots ss)"
    using frames_inv_contains [OF assms(3)] fst_slots by simp
  then obtain c where c: "(x, c) \<in># slots ss" by force
  from assms(1) have "distinct (residents ss)" by (simp add: lru_inv_def)
  from mset_replace_from_sum [OF c slots_lru_hit [OF this c]]
  have "slots (lru_hit x ss) = slots ss - {#(x, c)#} + {#(x, c + 1)#}" .
  with True freq_step.hit [OF c, of "length ss"] show ?thesis by (simp add: lru_step_def)
next
  case False
  then have new: "x \<notin> fst ` set_mset (slots ss)"
    using frames_inv_contains [OF assms(3)] fst_slots by simp
  show ?thesis
  proof (cases "IsSimFull ss")
    case True
    from assms(2) obtain s rest where ss: "ss = s # rest" by (cases ss) auto
    with True have occ: "sim_id s \<noteq> FREE" by (simp add: IsSimFull_iff)
    have mem: "(sim_id s, timesRequested s) \<in># slots ss" using ss occ by simp
    have "\<forall>(z, d) \<in># slots ss. timesRequested s \<le> d"
      using assms(1) ss by (auto simp: lru_inv_def in_slots)
    moreover have "size (slots ss) = length ss"
      using True IsSimFull_residents size_slots by simp
    ultimately have "freq_step (length ss) (slots ss) x
        (slots ss - {#(sim_id s, timesRequested s)#} + {#(x, 0)#})"
      using freq_step.evict [OF new _ mem] by simp
    with True False show ?thesis
      by (simp add: lru_step_def slots_lru_evict [OF ss occ assms(3)])
  next
    case notfull: False
    have "size (slots ss) < length ss"
      using notfull IsSimFull_residents size_slots length_residents_le le_neq_implies_less by metis
    moreover have "slots (fill_free x ss) = slots ss + {#(x, 0)#}"
      using slots_fill_free [OF notfull _ assms(3)] assms(1) by (simp add: lru_inv_def)
    ultimately show ?thesis
      using False notfull freq_step.load [OF new] by (simp add: lru_step_def)
  qed
qed

lemma lru_step_inv:
  assumes "lru_inv ss" "ss \<noteq> []" "x \<noteq> FREE"
  shows "lru_inv (fst (lru_step ss x))"
proof -
  from assms(1) have d: "distinct (residents ss)"
    and z: "\<forall>s \<in> set ss. sim_id s = FREE \<longrightarrow> timesRequested s = 0"
    and p: "\<forall>s \<in> set ss. 0 \<le> timesRequested s"
    by (simp_all add: lru_inv_def)
  show ?thesis
  proof (cases "SimContains ss x")
    case True
    have "\<forall>s \<in> set (lru_hit x ss). sim_id s = FREE \<longrightarrow> timesRequested s = 0"
      "\<forall>s \<in> set (lru_hit x ss). 0 \<le> timesRequested s"
      using z p assms(3) by (auto dest!: set_lru_hit)
    with True d show ?thesis by (simp add: lru_step_def lru_inv_Sort)
  next
    case False
    then have new: "x \<notin> set (residents ss)" using frames_inv_contains [OF assms(3)] by simp
    show ?thesis
    proof (cases "IsSimFull ss")
      case True
      from assms(2) obtain s rest where ss: "ss = s # rest" by (cases ss) auto
      with True have occ: "sim_id s \<noteq> FREE" by (simp add: IsSimFull_iff)
      have "distinct (residents (lru_evict x ss))"
        using residents_lru_evict [OF ss occ assms(3)] d new ss occ by auto
      moreover have "\<forall>s \<in> set (lru_evict x ss). sim_id s = FREE \<longrightarrow> timesRequested s = 0"
        "\<forall>s \<in> set (lru_evict x ss). 0 \<le> timesRequested s"
        using z p assms(3) by (auto dest!: set_lru_evict)
      ultimately show ?thesis using True False by (simp add: lru_step_def lru_inv_Sort)
    next
      case notfull: False
      have "distinct (residents (fill_free x ss))"
        using distinct_residents_fill_free [OF d new assms(3)] .
      moreover have "\<forall>s \<in> set (fill_free x ss). sim_id s = FREE \<longrightarrow> timesRequested s = 0"
        "\<forall>s \<in> set (fill_free x ss). 0 \<le> timesRequested s"
        using z p assms(3) by (auto dest!: set_fill_free)
      ultimately show ?thesis using notfull False by (simp add: lru_step_def lru_inv_Sort)
    qed
  qed
qed

lemma length_lru_step [simp]: "length (fst (lru_step ss x)) = length ss"
  by (simp add: lru_step_def lru_evict_def split: list.split)

section \<open>Reachable states and runs\<close>

lemma lru_init_inv: "lru_inv (lru_init blk)"
  by (simp add: lru_inv_def lru_init_def residents_def comp_def map_replicate_const)

lemma lru_init_slots: "slots (lru_init blk) = {#}"
  by (induction blk) (simp_all add: lru_init_def)

lemma lru_reachable_inv: "lru_reachable ss \<Longrightarrow> lru_inv ss \<and> ss \<noteq> []"
proof (induction rule: lru_reachable.induct)
  case (init blk)
  then show ?case using lru_init_inv by (simp add: lru_init_def)
next
  case (step ss x)
  then show ?case using lru_step_inv [of ss x] by (metis length_lru_step length_0_conv)
qed

lemma lru_loop_reachable:
  "lru_reachable ss \<Longrightarrow> FREE \<notin> set xs \<Longrightarrow> lru_reachable (fst (lru_loop ss xs out))"
proof (induction xs arbitrary: ss out)
  case Nil
  then show ?case by simp
next
  case (Cons x xs)
  from Cons.prems have "lru_reachable (fst (lru_step ss x))" by (auto intro: lru_reachable.step)
  with Cons.IH Cons.prems show ?case by (simp add: split_beta)
qed

text \<open>A run of the frequency policy with the hit flags it produces.\<close>

inductive freq_run :: "nat \<Rightarrow> (int \<times> int) multiset \<Rightarrow> int list \<Rightarrow> bool list \<Rightarrow> bool" where
  Nil: "freq_run cap M [] []"
| Cons: "freq_step cap M x M' \<Longrightarrow> freq_run cap M' xs hs \<Longrightarrow>
         freq_run cap M (x # xs) ((x \<in> fst ` set_mset M) # hs)"

lemma lru_step_request:
  "x \<noteq> FREE \<Longrightarrow>
   snd (lru_step ss x) = \<lparr>req_id = x, hitOrPageFault = label_of (x \<in> fst ` set_mset (slots ss))\<rparr>"
  by (simp add: lru_step_def label_of_def frames_inv_contains fst_slots)

lemma lru_loop_refines:
  assumes "lru_reachable ss" "FREE \<notin> set xs"
  shows "\<exists>hs. freq_run (length ss) (slots ss) xs hs \<and>
           snd (lru_loop ss xs out) = out @ map2 (\<lambda>x h. \<lparr>req_id = x, hitOrPageFault = label_of h\<rparr>) xs hs"
  using assms
proof (induction xs arbitrary: ss out)
  case Nil
  then show ?case by (auto intro: freq_run.Nil)
next
  case (Cons x xs)
  from Cons.prems have x: "x \<noteq> FREE" and xs: "FREE \<notin> set xs" by auto
  let ?ss' = "fst (lru_step ss x)"
  have r': "lru_reachable ?ss'" using Cons.prems(1) x by (rule lru_reachable.step)
  from lru_reachable_inv [OF Cons.prems(1)] have "lru_inv ss" "ss \<noteq> []" by auto
  then have st: "freq_step (length ss) (slots ss) x (slots ?ss')" using x by (rule lru_step_refines)
  obtain hs where hs: "freq_run (length ss) (slots ?ss') xs hs"
    "snd (lru_loop ?ss' xs (out @ [snd (lru_step ss x)])) =
       (out @ [snd (lru_step ss x)]) @ map2 (\<lambda>x h. \<lparr>req_id = x, hitOrPageFault = label_of h\<rparr>) xs hs"
    using Cons.IH [OF r' xs, of "out @ [snd (lru_step ss x)]"] by auto
  have "freq_run (length ss) (slots ss) (x # xs) ((x \<in> fst ` set_mset (slots ss)) # hs)"
    using st hs(1) by (rule freq_run.Cons)
  moreover have "lru_loop ss (x # xs) out = lru_loop ?ss' xs (out @ [snd (lru_step ss x)])"
    by (simp add: split_beta)
  ultimately show ?case using hs(2) lru_step_request [OF x] by fastforce
qed

section \<open>Bounds on the counters\<close>

text \<open>A step raises no count by more than one and lowers none below 0.\<close>

lemma lru_step_counts:
  assumes "\<forall>s \<in> set ss. 0 \<le> timesRequested s \<and> timesRequested s \<le> n"
  shows "\<forall>s \<in> set (fst (lru_step ss x)). 0 \<le> timesRequested s \<and> timesRequested s \<le> n + 1"
proof -
  have n: "ss \<noteq> [] \<Longrightarrow> 0 \<le> n" using assms by (cases ss) auto
  have "\<forall>s \<in> set (lru_hit x ss). 0 \<le> timesRequested s \<and> timesRequested s \<le> n + 1"
    using assms by (auto dest!: set_lru_hit)
  moreover have "\<forall>s \<in> set (lru_evict x ss). 0 \<le> timesRequested s \<and> timesRequested s \<le> n + 1"
    using assms n by (cases ss) (auto simp: lru_evict_def)
  moreover have "\<forall>s \<in> set (fill_free x ss). 0 \<le> timesRequested s \<and> timesRequested s \<le> n + 1"
    using assms by (fastforce dest!: set_fill_free)
  ultimately show ?thesis by (simp add: lru_step_def)
qed

lemma lru_loop_counts:
  "\<forall>s \<in> set ss. 0 \<le> timesRequested s \<and> timesRequested s \<le> n \<Longrightarrow>
   \<forall>s \<in> set (fst (lru_loop ss xs out)). 0 \<le> timesRequested s \<and> timesRequested s \<le> n + int (length xs)"
proof (induction xs arbitrary: ss out n)
  case Nil
  then show ?case by simp
next
  case (Cons x xs)
  have "\<forall>s \<in> set (fst (lru_step ss x)). 0 \<le> timesRequested s \<and> timesRequested s \<le> n + 1"
    using Cons.prems by (rule lru_step_counts)
  from Cons.IH [OF this, of "out @ [snd (lru_step ss x)]"] show ?case
    by (simp add: split_beta add.assoc)
qed

section \<open>Trace order and a single frame\<close>

lemma lru_loop_req_ids: "map req_id (snd (lru_loop ss xs out)) = map req_id out @ xs"
  by (induction xs arbitrary: ss out) (simp_all add: split_beta lru_step_def)

lemma SortByTimesRequested_single [simp]: "SortByTimesRequested [s] = [s]"
  by (simp add: SortByTimesRequested_def)

lemma lru_step_single:
  assumes "length ss = 1"
  shows "map sim_id (fst (lru_step ss x)) = [x]"
proof -
  from assms obtain s where ss: "ss = [s]" by (cases ss) auto
  show ?thesis by (simp add: ss lru_step_def lru_evict_def SimContains_iff IsSimFull_iff)
qed

lemma lru_loop_single:
  "length ss = 1 \<Longrightarrow>
   snd (lru_loop ss xs out) =
     out @ map2 (\<lambda>p x. \<lparr>req_id = x, hitOrPageFault = label_of (p = x)\<rparr>) (sim_id (hd ss) # xs) xs"
proof (induction xs arbitrary: ss out)
  case Nil
  then show ?case by simp
next
  case (Cons x xs)
  let ?ss' = "fst (lru_step ss x)"
  from Cons.prems have one: "length ?ss' = 1" by simp
  have hd': "sim_id (hd ?ss') = x"
    using lru_step_single [OF Cons.prems, of x] one by (cases ?ss') auto
  from Cons.prems obtain s where "ss = [s]" by (cases ss) auto
  then have "snd (lru_step ss x) = \<lparr>req_id = x, hitOrPageFault = label_of (sim_id (hd ss) = x)\<rparr>"
    by (auto simp: lru_step_def label_of_def SimContains_iff)
  with Cons.IH [OF one] hd' show ?case by (simp add: split_beta)
qed

section \<open>Enough frames for every page\<close>

lemma set_residents_Sort [simp]:
  "set (residents (SortByTimesRequested ss)) = set (residents ss)"
  by (metis mset_residents mset_SortByTimesRequested set_mset_mset)

lemma lru_step_residents_grow:
  assumes "lru_inv ss" "x \<noteq> FREE" "x \<in> set (residents ss) \<or> \<not> IsSimFull ss"
  shows "set (residents (fst (lru_step ss x))) = insert x (set (residents ss))"
proof (cases "SimContains ss x")
  case True
  then have "x \<in> set (residents ss)" using frames_inv_contains [OF assms(2)] by simp
  with True show ?thesis by (auto simp: lru_step_def)
next
  case False
  then have new: "x \<notin> set (residents ss)" using frames_inv_contains [OF assms(2)] by simp
  with assms(3) have nf: "\<not> IsSimFull ss" by simp
  have "slots (fill_free x ss) = slots ss + {#(x, 0)#}"
    using slots_fill_free [OF nf _ assms(2)] assms(1) by (simp add: lru_inv_def)
  then have "set (residents (fill_free x ss)) = insert x (set (residents ss))"
    by (metis fst_slots set_mset_add_mset_insert image_insert fst_conv add_mset_add_single)
  with False nf show ?thesis by (simp add: lru_step_def)
qed

text \<open>When the frames can hold every page of the trace, the code never evicts:
  each page faults once, on its first reference.\<close>

lemma lru_loop_faults_no_eviction:
  assumes "lru_reachable ss" "FREE \<notin> set xs" "card (set (residents ss) \<union> set xs) \<le> length ss"
  shows "length (filter (\<lambda>r. hitOrPageFault r = PF_label) (snd (lru_loop ss xs out))) =
           length (filter (\<lambda>r. hitOrPageFault r = PF_label) out) + card (set xs - set (residents ss))"
  using assms
proof (induction xs arbitrary: ss out)
  case Nil
  then show ?case by simp
next
  case (Cons x xs)
  let ?ss' = "fst (lru_step ss x)"
  from Cons.prems have x: "x \<noteq> FREE" and xs: "FREE \<notin> set xs" by auto
  from lru_reachable_inv [OF Cons.prems(1)] have inv: "lru_inv ss" by simp
  let ?R = "set (residents ss)"
  have nofull: "x \<in> ?R \<or> \<not> IsSimFull ss"
  proof (rule ccontr)
    assume "\<not> (x \<in> ?R \<or> \<not> IsSimFull ss)"
    then have "x \<notin> ?R" "length (residents ss) = length ss" using IsSimFull_residents by auto
    moreover have "card ?R = length (residents ss)" using inv by (simp add: lru_inv_def distinct_card)
    moreover have "card (insert x ?R) \<le> card (?R \<union> set (x # xs))" by (intro card_mono) auto
    ultimately show False using Cons.prems(3) by simp
  qed
  have R': "set (residents ?ss') = insert x ?R" using lru_step_residents_grow [OF inv x nofull] .
  have r': "lru_reachable ?ss'" using Cons.prems(1) x by (rule lru_reachable.step)
  have c': "card (set (residents ?ss') \<union> set xs) \<le> length ?ss'"
    using Cons.prems(3) R' by (simp add: insert_commute)
  have lbl: "(hitOrPageFault (snd (lru_step ss x)) = PF_label) = (x \<notin> ?R)"
    by (simp add: lru_step_request [OF x] fst_slots label_of_def HIT_label_def PF_label_def)
  have cnt: "card (set (x # xs) - ?R) = (if x \<in> ?R then 0 else 1) + card (set xs - insert x ?R)"
  proof (cases "x \<in> ?R")
    case True
    then show ?thesis by (simp add: insert_absorb)
  next
    case False
    then have "set (x # xs) - ?R = insert x (set xs - insert x ?R)" by auto
    then show ?thesis using False by simp
  qed
  show ?case
    using Cons.IH [OF r' xs c', of "out @ [snd (lru_step ss x)]"] R' lbl cnt
    by (simp add: split_beta)
qed

section \<open>Full frames and new pages\<close>

text \<open>A full frame set stays full. On a full frame set a new page replaces slot 0
  at count 0, and the sort leaves it there, since no count is below 0: the next
  new page replaces it again.\<close>

lemma IsSimFull_ids: "IsSimFull ss \<longleftrightarrow> FREE \<notin> set (map sim_id ss)"
  by (simp add: IsSimFull_iff)

lemma lru_step_full:
  assumes "IsSimFull ss" "x \<noteq> FREE"
  shows "IsSimFull (fst (lru_step ss x))"
proof -
  have "IsSimFull (SortByTimesRequested ss') \<longleftrightarrow> IsSimFull ss'" for ss'
    by (simp add: IsSimFull_iff)
  moreover have "IsSimFull (lru_hit x ss)"
    using assms(1) IsSimFull_ids [of "lru_hit x ss"] IsSimFull_ids [of ss] by simp
  moreover have "IsSimFull (lru_evict x ss)"
    using assms by (cases ss) (simp_all add: lru_evict_def split: if_splits)
  ultimately show ?thesis using assms(1) by (simp add: lru_step_def)
qed

lemma sort_scan_none:
  "\<forall>s \<in> set ss. m \<le> timesRequested s \<Longrightarrow> sort_scan m mp i ss = (m, mp)"
  by (induction m mp i ss rule: sort_scan.induct) auto

lemma SortByTimesRequested_keeps:
  "\<forall>s \<in> set rest. timesRequested h \<le> timesRequested s \<Longrightarrow>
   SortByTimesRequested (h # rest) = h # rest"
  by (simp add: SortByTimesRequested_def sort_scan_none)

lemma lru_step_fresh_full:
  assumes "lru_inv ss" "IsSimFull ss" "ss \<noteq> []" "x \<noteq> FREE" "x \<notin> set (residents ss)"
  shows "fst (lru_step ss x) = \<lparr>sim_id = x, timesRequested = 0\<rparr> # tl ss"
proof -
  from assms(3) obtain s rest where ss: "ss = s # rest" by (cases ss) auto
  have nc: "\<not> SimContains ss x" using frames_inv_contains [OF assms(4)] assms(5) by simp
  have "\<forall>t \<in> set rest. 0 \<le> timesRequested t" using assms(1) ss by (simp add: lru_inv_def)
  then have "SortByTimesRequested (\<lparr>sim_id = x, timesRequested = 0\<rparr> # rest) = \<lparr>sim_id = x, timesRequested = 0\<rparr> # rest"
    by (intro SortByTimesRequested_keeps) simp
  moreover have "lru_evict x ss = \<lparr>sim_id = x, timesRequested = 0\<rparr> # rest"
    using ss by (cases s) (simp add: lru_evict_def)
  moreover have "fst (lru_step ss x) = SortByTimesRequested (lru_evict x ss)"
    using nc assms(2) by (simp add: lru_step_def)
  ultimately show ?thesis using ss by simp
qed

text \<open>C26: Under the frequency policy, once the frames are full, a run of new,
  distinct pages only ever replaces slot 0: each new page enters at count 0, is
  the minimum, and is the next victim, so the pages in the other frames are
  never evicted however many new pages arrive.\<close>

theorem lru_loop_fresh_full:
  assumes "lru_reachable ss" "IsSimFull ss" "FREE \<notin> set xs" "distinct xs"
    "set xs \<inter> set (residents ss) = {}" "xs \<noteq> []"
  shows "fst (lru_loop ss xs out) = \<lparr>sim_id = last xs, timesRequested = 0\<rparr> # tl ss"
  using assms
proof (induction xs arbitrary: ss out)
  case Nil
  then show ?case by simp
next
  case (Cons x xs)
  from lru_reachable_inv [OF Cons.prems(1)] have inv: "lru_inv ss" and ne: "ss \<noteq> []" by auto
  have x: "x \<noteq> FREE" "x \<notin> set (residents ss)" using Cons.prems(3,5) by auto
  have s1: "fst (lru_step ss x) = \<lparr>sim_id = x, timesRequested = 0\<rparr> # tl ss"
    using lru_step_fresh_full [OF inv Cons.prems(2) ne x] .
  have run: "lru_loop ss (x # xs) out = lru_loop (fst (lru_step ss x)) xs (out @ [snd (lru_step ss x)])"
    by (simp add: split_beta)
  show ?case
  proof (cases "xs = []")
    case True
    then show ?thesis using run s1 by simp
  next
    case False
    have r1: "lru_reachable (fst (lru_step ss x))" using Cons.prems(1) x(1) by (rule lru_reachable.step)
    have f1: "IsSimFull (fst (lru_step ss x))" using lru_step_full [OF Cons.prems(2) x(1)] .
    have "set (residents (tl ss)) \<subseteq> set (residents ss)" using ne by (cases ss) auto
    then have "set xs \<inter> set (residents (fst (lru_step ss x))) = {}"
      using s1 Cons.prems(4,5) x(1) by auto
    with Cons.IH [OF r1 f1 _ _ _ False, of "out @ [snd (lru_step ss x)]"] Cons.prems(3,4) run s1 False
    show ?thesis by simp
  qed
qed

theorem lru_loop_fresh_full_witness:
  "lru_reachable [\<lparr>sim_id = 1, timesRequested = 0\<rparr>, \<lparr>sim_id = 2, timesRequested = 0\<rparr>] \<and>
   IsSimFull [\<lparr>sim_id = 1, timesRequested = 0\<rparr>, \<lparr>sim_id = 2, timesRequested = 0\<rparr>] \<and>
   FREE \<notin> set [3, 4 :: int] \<and> distinct [3, 4 :: int] \<and>
   set [3, 4] \<inter> set (residents [\<lparr>sim_id = 1, timesRequested = 0\<rparr>, \<lparr>sim_id = 2, timesRequested = 0\<rparr>]) = {} \<and>
   [3, 4 :: int] \<noteq> [] \<and>
   fst (lru_loop [\<lparr>sim_id = 1, timesRequested = 0\<rparr>, \<lparr>sim_id = 2, timesRequested = 0\<rparr>] [3, 4] []) =
     [\<lparr>sim_id = 4, timesRequested = 0\<rparr>, \<lparr>sim_id = 2, timesRequested = 0\<rparr>]"
proof -
  let ?b = "[\<lparr>sim_id = 0, timesRequested = 0\<rparr>, \<lparr>sim_id = 0, timesRequested = 0\<rparr>]"
  have "lru_reachable (lru_init ?b)" by (rule lru_reachable.init) simp
  then have "lru_reachable (fst (lru_step (lru_init ?b) 1))" by (rule lru_reachable.step) simp
  then have "lru_reachable (fst (lru_step (fst (lru_step (lru_init ?b) 1)) 2))" by (rule lru_reachable.step) simp
  moreover have "fst (lru_step (fst (lru_step (lru_init ?b) 1)) 2) =
      [\<lparr>sim_id = 1, timesRequested = 0\<rparr>, \<lparr>sim_id = 2, timesRequested = 0\<rparr>]" by code_simp
  ultimately have r: "lru_reachable [\<lparr>sim_id = 1, timesRequested = 0\<rparr>, \<lparr>sim_id = 2, timesRequested = 0\<rparr>]"
    by simp
  have f: "IsSimFull [\<lparr>sim_id = 1, timesRequested = 0\<rparr>, \<lparr>sim_id = 2, timesRequested = 0\<rparr>]" by simp
  from lru_loop_fresh_full [OF r f, of "[3, 4]" "[]"] r f show ?thesis by (simp add: residents_def)
qed


section \<open>Classification and the ids the frames can hold\<close>

lemma lru_step_classify:
  "snd (lru_step ss x) = \<lparr>req_id = x, hitOrPageFault = label_of (SimContains ss x)\<rparr>"
  by (simp add: lru_step_def label_of_def)

lemma lru_step_id_set: "sim_id ` set (fst (lru_step ss x)) \<subseteq> insert x (sim_id ` set ss)"
proof -
  have "sim_id ` set (lru_hit x ss) = sim_id ` set ss"
    by (metis ids_lru_hit list.set_map)
  moreover have "sim_id ` set (lru_evict x ss) \<subseteq> insert x (sim_id ` set ss)"
    using set_lru_evict [of _ x ss] by blast
  ultimately show ?thesis using fill_free_id_set [of x ss] by (auto simp: lru_step_def)
qed

lemma lru_init_id_set: "sim_id ` set (lru_init blk) \<subseteq> {FREE}"
  by (auto simp: lru_init_def)

section \<open>The frequency policy against its specification\<close>

text \<open>C2: On every trace without the sentinel and every block of at least one
  slot, what \<open>SimulateLRU\<close> prints is the classification of a run of the
  specification's frequency policy from the empty frame set: the code's
  output is one of the outputs the policy allows.\<close>

theorem SimulateLRU_is_frequency_run:
  assumes "blk \<noteq> []" and "FREE \<notin> set trace"
  shows "\<exists>hs. freq_run (length blk) {#} trace hs \<and>
           SimulateLRU blk trace =
             PrintValues (map2 (\<lambda>x h. \<lparr>req_id = x, hitOrPageFault = label_of h\<rparr>) trace hs)"
proof -
  have r: "lru_reachable (lru_init blk)" using assms(1) by (rule lru_reachable.init)
  have "length (lru_init blk) = length blk" by (simp add: lru_init_def)
  then obtain hs where "freq_run (length blk) {#} trace hs"
    "snd (lru_loop (lru_init blk) trace []) =
       map2 (\<lambda>x h. \<lparr>req_id = x, hitOrPageFault = label_of h\<rparr>) trace hs"
    using lru_loop_refines [OF r assms(2), of "[]"] by (auto simp: lru_init_slots)
  then show ?thesis by (auto simp: SimulateLRU_def)
qed

theorem SimulateLRU_is_frequency_run_witness:
  "[\<lparr>sim_id = 5, timesRequested = 9\<rparr>] \<noteq> [] \<and> FREE \<notin> set [3, 3 :: int] \<and>
   (\<exists>hs. freq_run 1 {#} [3, 3] hs \<and>
      SimulateLRU [\<lparr>sim_id = 5, timesRequested = 9\<rparr>] [3, 3] =
        PrintValues (map2 (\<lambda>x h. \<lparr>req_id = x, hitOrPageFault = label_of h\<rparr>) [3, 3] hs))"
  using SimulateLRU_is_frequency_run [of "[\<lparr>sim_id = 5, timesRequested = 9\<rparr>]" "[3, 3]"]
  by simp

text \<open>C3: In every state the code reaches, a fault on a full frame set evicts
  the page in slot 0, and that page's count is the minimum over all resident
  pages; the new page enters with count 0 and every other (page, count) pair is
  kept.\<close>

theorem lru_evicts_minimum:
  assumes "lru_reachable ss" and "IsSimFull ss" and "\<not> SimContains ss x" and "x \<noteq> FREE"
  shows "slots (fst (lru_step ss x)) =
           slots ss - {#(sim_id (hd ss), timesRequested (hd ss))#} + {#(x, 0)#}
         \<and> (\<forall>s \<in> set ss. timesRequested (hd ss) \<le> timesRequested s)"
proof -
  from lru_reachable_inv [OF assms(1)] have inv: "lru_inv ss" and ne: "ss \<noteq> []" by auto
  from ne obtain s rest where ss: "ss = s # rest" by (cases ss) auto
  from assms(2) have occ: "\<forall>t \<in> set ss. sim_id t \<noteq> FREE" by (force simp: IsSimFull_iff)
  have "slots (fst (lru_step ss x)) = slots (lru_evict x ss)"
    using assms(2,3) by (simp add: lru_step_def)
  also have "\<dots> = slots ss - {#(sim_id (hd ss), timesRequested (hd ss))#} + {#(x, 0)#}"
    using slots_lru_evict [OF ss _ assms(4)] occ ss by simp
  finally show ?thesis using inv occ by (auto simp: lru_inv_def)
qed

theorem lru_evicts_minimum_witness:
  "lru_reachable [\<lparr>sim_id = 1, timesRequested = 0\<rparr>, \<lparr>sim_id = 2, timesRequested = 1\<rparr>] \<and>
   IsSimFull [\<lparr>sim_id = 1, timesRequested = 0\<rparr>, \<lparr>sim_id = 2, timesRequested = 1\<rparr>] \<and>
   \<not> SimContains [\<lparr>sim_id = 1, timesRequested = 0\<rparr>, \<lparr>sim_id = 2, timesRequested = 1\<rparr>] 3 \<and>
   (3::int) \<noteq> FREE \<and>
   slots (fst (lru_step [\<lparr>sim_id = 1, timesRequested = 0\<rparr>, \<lparr>sim_id = 2, timesRequested = 1\<rparr>] 3)) =
     {#(2, 1), (3, 0)#} \<and>
   timesRequested (hd [\<lparr>sim_id = 1, timesRequested = 0\<rparr>, \<lparr>sim_id = 2, timesRequested = 1\<rparr>])
     \<le> timesRequested (\<lparr>sim_id = 2, timesRequested = 1\<rparr> :: sim_node)"
proof -
  let ?b = "[\<lparr>sim_id = 0, timesRequested = 0\<rparr>, \<lparr>sim_id = 0, timesRequested = 0\<rparr>]"
  have "lru_reachable (fst (lru_step (fst (lru_step (fst (lru_step (lru_init ?b) 1)) 2)) 2))"
    by (intro lru_reachable.step lru_reachable.init) simp_all
  moreover have "fst (lru_step (fst (lru_step (fst (lru_step (lru_init ?b) 1)) 2)) 2) =
      [\<lparr>sim_id = 1, timesRequested = 0\<rparr>, \<lparr>sim_id = 2, timesRequested = 1\<rparr>]"
    by code_simp
  ultimately have r: "lru_reachable [\<lparr>sim_id = 1, timesRequested = 0\<rparr>, \<lparr>sim_id = 2, timesRequested = 1\<rparr>]"
    by simp
  show ?thesis
    using lru_evicts_minimum [OF r, of 3] r
    by (simp add: IsSimFull_iff SimContains_iff add_mset_commute)
qed

text \<open>C4: In every state the code reaches, a hit on a resident page whose count
  is \<open>c\<close> raises that count to \<open>c + 1\<close> and leaves every other (page, count) pair
  as it was, whatever the sort does to the slot order.\<close>

theorem lru_hit_increments:
  assumes "lru_reachable ss" and "(x, c) \<in># slots ss"
  shows "slots (fst (lru_step ss x)) = slots ss - {#(x, c)#} + {#(x, c + 1)#}"
proof -
  from lru_reachable_inv [OF assms(1)] have "distinct (residents ss)" by (simp add: lru_inv_def)
  from mset_replace_from_sum [OF assms(2) slots_lru_hit [OF this assms(2)]]
  have "slots (lru_hit x ss) = slots ss - {#(x, c)#} + {#(x, c + 1)#}" .
  moreover from assms(2) have "SimContains ss x" by (auto simp: in_slots SimContains_iff)
  ultimately show ?thesis by (simp add: lru_step_def)
qed

theorem lru_hit_increments_witness:
  "lru_reachable (fst (lru_step (lru_init [\<lparr>sim_id = 0, timesRequested = 0\<rparr>]) 4)) \<and>
   (4, 0) \<in># slots (fst (lru_step (lru_init [\<lparr>sim_id = 0, timesRequested = 0\<rparr>]) 4)) \<and>
   slots (fst (lru_step (fst (lru_step (lru_init [\<lparr>sim_id = 0, timesRequested = 0\<rparr>]) 4)) 4)) =
     {#(4, 1)#}"
proof -
  have r: "lru_reachable (fst (lru_step (lru_init [\<lparr>sim_id = 0, timesRequested = 0\<rparr>]) 4))"
    by (intro lru_reachable.step lru_reachable.init) simp_all
  have s: "slots (fst (lru_step (lru_init [\<lparr>sim_id = 0, timesRequested = 0\<rparr>]) 4)) = {#(4, 0)#}"
    by code_simp
  show ?thesis using lru_hit_increments [OF r, of 4 0] r s by simp
qed


section \<open>The sort and the loads\<close>

text \<open>C32: \<open>SortByTimesRequested\<close> implements the specification's tie-breaking
  (4.3, 9): it swaps slot 0 only with an occupied slot whose count is strictly
  below slot 0's, and then with the lowest-index one of minimum count among the
  occupied slots; otherwise it changes nothing and slot 0 already holds a count
  no larger than any occupied slot's.\<close>

theorem sort_lowest_minimum:
  "(SortByTimesRequested (h # rest) = h # rest \<and>
      (\<forall>s \<in> set rest. sim_id s \<noteq> FREE \<longrightarrow> timesRequested h \<le> timesRequested s)) \<or>
   (\<exists>p. 0 < p \<and> p < length (h # rest) \<and>
      SortByTimesRequested (h # rest) = (h # rest)[0 := (h # rest) ! p, p := h] \<and>
      sim_id ((h # rest) ! p) \<noteq> FREE \<and> timesRequested ((h # rest) ! p) < timesRequested h \<and>
      (\<forall>j < length (h # rest). 0 < j \<and> sim_id ((h # rest) ! j) \<noteq> FREE \<longrightarrow>
         timesRequested ((h # rest) ! p) \<le> timesRequested ((h # rest) ! j)) \<and>
      (\<forall>j < p. 0 < j \<and> sim_id ((h # rest) ! j) \<noteq> FREE \<longrightarrow>
         timesRequested ((h # rest) ! p) < timesRequested ((h # rest) ! j)))"
proof -
  obtain m' mp' where sc: "sort_scan (timesRequested h) 0 1 rest = (m', mp')"
    by (cases "sort_scan (timesRequested h) 0 1 rest")
  note first = sort_scan_first [OF sc] and res = sort_scan_result [OF sc]
  show ?thesis
  proof (cases "mp' = 0")
    case True
    with first have "\<forall>s \<in> set rest. sim_id s \<noteq> FREE \<longrightarrow> timesRequested h \<le> timesRequested s" by auto
    with True sc show ?thesis by (simp add: SortByTimesRequested_def)
  next
    case False
    with first have a: "1 \<le> mp'" "mp' < 1 + length rest" "m' < timesRequested h"
      "\<forall>j < mp' - 1. sim_id (rest ! j) \<noteq> FREE \<longrightarrow> m' < timesRequested (rest ! j)" by auto
    from res False have b: "sim_id (rest ! (mp' - 1)) \<noteq> FREE" "timesRequested (rest ! (mp' - 1)) = m'"
      "\<forall>s \<in> set rest. sim_id s \<noteq> FREE \<longrightarrow> m' \<le> timesRequested s" by auto
    have nth: "\<And>j. 0 < j \<Longrightarrow> (h # rest) ! j = rest ! (j - 1)" by (simp add: nth_Cons')
    have "SortByTimesRequested (h # rest) = (h # rest)[0 := (h # rest) ! mp', mp' := h]"
      using sc False by (simp add: SortByTimesRequested_def)
    moreover have "\<forall>j < length (h # rest). 0 < j \<and> sim_id ((h # rest) ! j) \<noteq> FREE \<longrightarrow>
         timesRequested ((h # rest) ! mp') \<le> timesRequested ((h # rest) ! j)"
      using a(1) b nth by (auto simp: nth_mem)
    moreover have "\<forall>j < mp'. 0 < j \<and> sim_id ((h # rest) ! j) \<noteq> FREE \<longrightarrow>
         timesRequested ((h # rest) ! mp') < timesRequested ((h # rest) ! j)"
      using a b(2) nth by auto
    ultimately show ?thesis using a b(1,2) nth [of mp'] by (intro disjI2 exI [of _ mp']) simp
  qed
qed

theorem sort_lowest_minimum_witness:
  "SortByTimesRequested [\<lparr>sim_id = 1, timesRequested = 2\<rparr>, \<lparr>sim_id = 2, timesRequested = 1\<rparr>] =
     [\<lparr>sim_id = 2, timesRequested = 1\<rparr>, \<lparr>sim_id = 1, timesRequested = 2\<rparr>]"
proof -
  let ?h = "\<lparr>sim_id = 1, timesRequested = 2\<rparr> :: sim_node" and ?r = "[\<lparr>sim_id = 2, timesRequested = 1\<rparr>]"
  from sort_lowest_minimum [of ?h ?r] show ?thesis
  proof
    assume "SortByTimesRequested (?h # ?r) = ?h # ?r \<and>
      (\<forall>s \<in> set ?r. sim_id s \<noteq> FREE \<longrightarrow> timesRequested ?h \<le> timesRequested s)"
    then show ?thesis by simp
  next
    assume "\<exists>p. 0 < p \<and> p < length (?h # ?r) \<and>
      SortByTimesRequested (?h # ?r) = (?h # ?r)[0 := (?h # ?r) ! p, p := ?h] \<and>
      sim_id ((?h # ?r) ! p) \<noteq> FREE \<and> timesRequested ((?h # ?r) ! p) < timesRequested ?h \<and>
      (\<forall>j < length (?h # ?r). 0 < j \<and> sim_id ((?h # ?r) ! j) \<noteq> FREE \<longrightarrow>
         timesRequested ((?h # ?r) ! p) \<le> timesRequested ((?h # ?r) ! j)) \<and>
      (\<forall>j < p. 0 < j \<and> sim_id ((?h # ?r) ! j) \<noteq> FREE \<longrightarrow>
         timesRequested ((?h # ?r) ! p) < timesRequested ((?h # ?r) ! j))"
    then obtain p where "0 < p" "p < length (?h # ?r)"
        "SortByTimesRequested (?h # ?r) = (?h # ?r)[0 := (?h # ?r) ! p, p := ?h]"
      by blast
    moreover from \<open>0 < p\<close> \<open>p < length (?h # ?r)\<close> have "p = 1" by simp
    ultimately show ?thesis by simp
  qed
qed

text \<open>C33: In every state the frequency policy reaches, a page loaded into a
  free slot enters at count 0, as the specification's \<open>insertIntoFreeSlot\<close>
  (4.1) requires, although the code's free-slot loop writes only the id: the
  initialisation gave every free slot count 0 and no free slot is counted.\<close>

theorem lru_load_at_zero:
  assumes "lru_reachable ss" and "x \<noteq> FREE" and "\<not> SimContains ss x" and "\<not> IsSimFull ss"
  shows "slots (fst (lru_step ss x)) = slots ss + {#(x, 0)#}"
proof -
  from lru_reachable_inv [OF assms(1)] have "\<forall>s \<in> set ss. sim_id s = FREE \<longrightarrow> timesRequested s = 0"
    by (simp add: lru_inv_def)
  with slots_fill_free [OF assms(4) _ assms(2)] assms(3,4) show ?thesis by (simp add: lru_step_def)
qed

theorem lru_load_at_zero_witness:
  "lru_reachable (lru_init [\<lparr>sim_id = 7, timesRequested = 5\<rparr>]) \<and> (1 :: int) \<noteq> FREE \<and>
   \<not> SimContains (lru_init [\<lparr>sim_id = 7, timesRequested = 5\<rparr>]) 1 \<and>
   \<not> IsSimFull (lru_init [\<lparr>sim_id = 7, timesRequested = 5\<rparr>]) \<and>
   slots (fst (lru_step (lru_init [\<lparr>sim_id = 7, timesRequested = 5\<rparr>]) 1)) = {#(1, 0)#}"
proof -
  have r: "lru_reachable (lru_init [\<lparr>sim_id = 7, timesRequested = 5\<rparr>])" by (rule lru_reachable.init) simp
  have c: "\<not> SimContains (lru_init [\<lparr>sim_id = 7, timesRequested = 5\<rparr>]) 1"
    and f: "\<not> IsSimFull (lru_init [\<lparr>sim_id = 7, timesRequested = 5\<rparr>])" by (simp_all add: lru_init_def)
  from lru_load_at_zero [OF r _ c f] r c f show ?thesis by (simp add: lru_init_slots)
qed

end
