(* ===== verification/HeapSim.thy ===== *)
theory HeapSim
  imports Queue Fifo Lru
begin

text \<open>
  The simulations as the C code runs them: on the heap of \<open>Node\<close>s, dequeuing
  from the input queue that \<open>ReadFileData\<close> built, writing the label into the
  dequeued node's \<open>PageRequest\<close> and enqueuing the same node on the output
  queue (lines 248--256 and 293--307). The loop is written once for both
  policies over the interface \<open>policy_step\<close>, the one-reference step that
  \<open>fifo_step\<close> and \<open>lru_step\<close> implement. The C loop has no bound; the model
  runs on fuel, and the main theorem shows that fuel one larger than the heap
  always suffices and that the result is the list-level run of the policy on the
  queue's ids, in queue order. The simulations end with \<open>FreeQueue\<close> on the
  output queue, which frees every node \<open>ReadFileData\<close> allocated, each once. The
  generic lemmas at the end pass a property of a policy step (keeping the frame
  set full, writing one of the two labels) on to the whole loop.
  Claim C14, at the end, is that main theorem for both policies.
\<close>

section \<open>The policy interface and the list-level loop\<close>

type_synonym policy_step = "sim_node list \<Rightarrow> int \<Rightarrow> sim_node list \<times> page_request"

fun sim_loop :: "policy_step \<Rightarrow> sim_node list \<Rightarrow> int list \<Rightarrow> page_request list \<Rightarrow>
                  sim_node list \<times> page_request list" where
  "sim_loop st ss [] out = (ss, out)"
| "sim_loop st ss (x # xs) out = (let (ss', r) = st ss x in sim_loop st ss' xs (out @ [r]))"

lemma fifo_loop_is_sim_loop: "fifo_loop ss xs out = sim_loop fifo_step ss xs out"
  by (induction xs arbitrary: ss out) (simp_all add: split_beta)

lemma lru_loop_is_sim_loop: "lru_loop ss xs out = sim_loop lru_step ss xs out"
  by (induction xs arbitrary: ss out) (simp_all add: split_beta)

section \<open>Building the input queue\<close>

text \<open>\<open>NewPageRequest\<close> (lines 81--89): the label is left uninitialised; the
  model takes the empty string, which every simulation overwrites before any read.\<close>

definition NewPageRequest :: "int \<Rightarrow> page_request" where
  "NewPageRequest i = \<lparr>req_id = i, hitOrPageFault = []\<rparr>"

text \<open>The body of \<open>ReadFileData\<close>'s loop after each successful \<open>fscanf\<close>
  (lines 223--231): a request, a node, enqueued.\<close>

fun enqueue_ids :: "heap \<Rightarrow> queue \<Rightarrow> int list \<Rightarrow> heap \<times> queue" where
  "enqueue_ids hp q [] = (hp, q)"
| "enqueue_ids hp q (x # xs) =
     (let (hp1, n) = NewNode hp (NewPageRequest x); (hp2, q2) = Enqueue hp1 q n
      in enqueue_ids hp2 q2 xs)"

section \<open>The simulation loop on the heap\<close>

text \<open>One turn: \<open>Dequeue\<close>, classify the node's id, copy the label into its
  request, \<open>Enqueue\<close> the node on the output queue. A \<open>NULL\<close> from \<open>Dequeue\<close>
  cannot happen when the queue is not empty; the C code would dereference it.\<close>

fun sim_drain :: "policy_step \<Rightarrow> nat \<Rightarrow> heap \<Rightarrow> queue \<Rightarrow> queue \<Rightarrow> sim_node list \<Rightarrow>
                   (heap \<times> queue \<times> sim_node list) option" where
  "sim_drain st 0 hp inq outq ss = None"
| "sim_drain st (Suc f) hp inq outq ss =
     (if IsQueueEmpty inq then Some (hp, outq, ss)
      else (case Dequeue hp inq of
              (hp1, inq1, NULL) \<Rightarrow> None
            | (hp1, inq1, Ref a) \<Rightarrow>
                (let (ss', r) = st ss (req_id (item (hp1 ! a)));
                     hp2 = hp1[a := (hp1 ! a)\<lparr>item := r\<rparr>];
                     (hp3, outq1) = Enqueue hp2 outq (Ref a)
                 in sim_drain st f hp3 inq1 outq1 ss')))"

text \<open>The walk of \<open>PrintValues\<close> over the output queue,
  \<open>for (iterator = head; iterator != NULL; iterator = iterator->next)\<close>
  (line 338), on fuel: the addresses visited, or \<open>None\<close> when the fuel runs out or
  a pointer leaves the heap.\<close>

fun walk :: "nat \<Rightarrow> heap \<Rightarrow> ptr \<Rightarrow> nat list option" where
  "walk 0 hp p = None"
| "walk (Suc f) hp NULL = Some []"
| "walk (Suc f) hp (Ref a) =
     (if a < length hp then map_option (Cons a) (walk f hp (next_ptr (hp ! a))) else None)"

text \<open>\<open>SimulateFIFO\<close> and \<open>SimulateLRU\<close> on the heap (lines 247--276 and
  292--324): the output queue is a \<open>NewQueue\<close>, \<open>PrintValues\<close> walks its items,
  and \<open>FreeQueue\<close> frees its nodes, given the allocation flags of the heap. The
  result is what is printed and the flags after the frees (or the error).\<close>

definition simulate_heap :: "policy_step \<Rightarrow> heap \<Rightarrow> live \<Rightarrow> queue \<Rightarrow> sim_node list \<Rightarrow>
                               ((string list \<times> c_float) \<times> (mem_error + live)) option" where
  "simulate_heap st hp lv inq ss0 =
     (case sim_drain st (Suc (length hp)) hp inq NewQueue ss0 of
        None \<Rightarrow> None
      | Some (hp', outq, ss) \<Rightarrow>
          (case walk (Suc (length hp')) hp' (head outq) of
             None \<Rightarrow> None
           | Some cs \<Rightarrow>
               (let out = PrintValues (items hp' cs)
                in case FreeQueue hp' lv outq of None \<Rightarrow> None | Some m \<Rightarrow> Some (out, m))))"

definition SimulateFIFO_heap :: "heap \<Rightarrow> live \<Rightarrow> queue \<Rightarrow> sim_node list \<Rightarrow>
                                   ((string list \<times> c_float) \<times> (mem_error + live)) option" where
  "SimulateFIFO_heap hp lv inq blk = simulate_heap fifo_step hp lv inq (fifo_init blk)"

definition SimulateLRU_heap :: "heap \<Rightarrow> live \<Rightarrow> queue \<Rightarrow> sim_node list \<Rightarrow>
                                  ((string list \<times> c_float) \<times> (mem_error + live)) option" where
  "SimulateLRU_heap hp lv inq blk = simulate_heap lru_step hp lv inq (lru_init blk)"

section \<open>Lemmas\<close>

lemma sim_loop_out:
  "sim_loop st ss xs out = (fst (sim_loop st ss xs []), out @ snd (sim_loop st ss xs []))"
proof (induction xs arbitrary: ss out)
  case Nil
  then show ?case by simp
next
  case (Cons x xs)
  obtain ss' r where st: "st ss x = (ss', r)" by (cases "st ss x")
  show ?case using Cons.IH [of ss' "out @ [r]"] Cons.IH [of ss' "[r]"] st by simp
qed

lemma items_map_item:
  assumes "map item hp' = map item hp" "\<forall>a \<in> set cs. a < length hp"
  shows "items hp' cs = items hp cs"
proof -
  have l: "length hp' = length hp" using assms(1) by (metis length_map)
  have "\<And>a. a < length hp \<Longrightarrow> item (hp' ! a) = item (hp ! a)"
    using assms(1) l by (metis nth_map)
  with assms(2) show ?thesis unfolding items_def by (intro map_cong refl) blast
qed

lemma next_item_update [simp]:
  "next_ptr (hp[a := (hp ! a)\<lparr>item := r\<rparr>] ! b) = next_ptr (hp ! b)"
  by (cases "a < length hp") (auto simp: nth_list_update list_update_beyond)

lemma path_item_update [simp]:
  "path (hp[a := (hp ! a)\<lparr>item := r\<rparr>]) p cs q \<longleftrightarrow> path hp p cs q"
  by (induction cs arbitrary: p) auto

lemma items_item_update:
  "a \<notin> set cs \<Longrightarrow> items (hp[a := (hp ! a)\<lparr>item := r\<rparr>]) cs = items hp cs"
  unfolding items_def by (intro map_cong refl) (metis nth_list_update_neq)

text \<open>\<open>ReadFileData\<close>'s loop builds a well-formed queue of fresh nodes whose ids
  are the values read, in order.\<close>

lemma enqueue_ids_spec:
  assumes "queue_inv hp q as" "enqueue_ids hp q xs = (hp', q')"
  shows "\<exists>bs. queue_inv hp' q' (as @ bs) \<and>
           map req_id (items hp' (as @ bs)) = map req_id (items hp as) @ xs"
  using assms
proof (induction xs arbitrary: hp q as)
  case Nil
  then show ?case by (intro exI [of _ "[]"]) simp
next
  case (Cons x xs)
  obtain hp1 n where nn: "NewNode hp (NewPageRequest x) = (hp1, n)" by (cases "NewNode hp (NewPageRequest x)")
  obtain hp2 q2 where enq: "Enqueue hp1 q n = (hp2, q2)" by (cases "Enqueue hp1 q n")
  from NewNode_fresh [OF nn] have n: "n = Ref (length hp)" "length hp < length hp1"
    and fresh: "hp1 ! length hp = \<lparr>item = NewPageRequest x, next_ptr = NULL\<rparr>" by auto
  from NewNode_keeps [OF nn Cons.prems(1)] have inv1: "queue_inv hp1 q as" and it1: "items hp1 as = items hp as"
    by auto
  have "length hp \<notin> set as"
    using Cons.prems(1) path_lengths by (fastforce simp: queue_inv_def)
  with Enqueue_spec [OF inv1 n(2) _ _ enq [unfolded n(1)]] fresh
  have inv2: "queue_inv hp2 q2 (as @ [length hp])"
    and it2: "items hp2 (as @ [length hp]) = items hp as @ [NewPageRequest x]"
    using it1 by auto
  from Cons.prems(2) nn enq n have "enqueue_ids hp2 q2 xs = (hp', q')" by simp
  from Cons.IH [OF inv2 this] obtain bs where
    "queue_inv hp' q' ((as @ [length hp]) @ bs)"
    "map req_id (items hp' ((as @ [length hp]) @ bs)) = map req_id (items hp2 (as @ [length hp])) @ xs"
    by blast
  with it2 show ?case by (intro exI [of _ "length hp # bs"]) (simp add: NewPageRequest_def)
qed

lemma walk_path:
  "path hp p cs NULL \<Longrightarrow> length cs < f \<Longrightarrow> walk f hp p = Some cs"
proof (induction cs arbitrary: p f)
  case Nil
  then show ?case by (cases f) auto
next
  case (Cons c cs)
  then obtain f' where "f = Suc f'" by (cases f) auto
  with Cons show ?case by auto
qed

text \<open>The drain loop: with more fuel than nodes in the input queue it returns,
  having appended the input nodes to the output queue, each labelled by the
  policy's run on the ids in queue order, and the frame set of that run.\<close>

lemma sim_drain_spec:
  assumes "path hp (head inq) as NULL" "distinct as" "queue_inv hp outq bs"
    "set as \<inter> set bs = {}" "length as < f"
  shows "\<exists>hp' outq'. sim_drain st f hp inq outq ss =
             Some (hp', outq', fst (sim_loop st ss (map req_id (items hp as)) [])) \<and>
           queue_inv hp' outq' (bs @ as) \<and> length hp' = length hp \<and>
           items hp' (bs @ as) = items hp bs @ snd (sim_loop st ss (map req_id (items hp as)) [])"
  using assms
proof (induction as arbitrary: hp inq outq bs ss f)
  case Nil
  then obtain f' where "f = Suc f'" by (cases f) auto
  moreover from Nil.prems(1) have "IsQueueEmpty inq" by (simp add: IsQueueEmpty_def)
  ultimately show ?case using Nil.prems(3) by (simp add: items_def)
next
  case (Cons a as)
  from Cons.prems(5) obtain f' where f: "f = Suc f'" "length as < f'" by (cases f) auto
  from Cons.prems(1) have ne: "\<not> IsQueueEmpty inq" by (auto simp: IsQueueEmpty_def)
  obtain hp1 inq1 p where deq: "Dequeue hp inq = (hp1, inq1, p)" by (cases "Dequeue hp inq") auto
  note D = Dequeue_spec [OF Cons.prems(1,2) deq]
  from D have p: "p = Ref a" and al: "a < length hp" by auto
  have abs: "a \<notin> set bs" "a \<notin> set as" using Cons.prems(2,4) by auto
  let ?x = "req_id (item (hp1 ! a))"
  obtain ss' r where st: "st ss ?x = (ss', r)" by (cases "st ss ?x")
  let ?hp2 = "hp1[a := (hp1 ! a)\<lparr>item := r\<rparr>]"
  obtain hp3 outq1 where enq: "Enqueue ?hp2 outq (Ref a) = (hp3, outq1)" by (cases "Enqueue ?hp2 outq (Ref a)")
  have l1: "length hp1 = length hp" using D by simp
  have bsl: "\<forall>c \<in> set bs. c < length hp"
    using Cons.prems(3) path_lengths by (fastforce simp: queue_inv_def)
  have asl: "\<forall>c \<in> set as. c < length hp"
    using Cons.prems(1) path_lengths by fastforce
  have inv2: "queue_inv ?hp2 outq bs"
    using Cons.prems(3) D abs(1) by (simp add: queue_inv_def)
  have E: "queue_inv hp3 outq1 (bs @ [a]) \<and> items hp3 (bs @ [a]) = items ?hp2 bs @ [item (?hp2 ! a)] \<and>
         length hp3 = length ?hp2 \<and> map item hp3 = map item ?hp2 \<and>
         (\<forall>p cs r. set cs \<inter> set bs = {} \<longrightarrow> path hp3 p cs r = path ?hp2 p cs r)"
    using Enqueue_spec [OF inv2 _ abs(1) _ enq] al l1 D by simp
  have pth3: "path hp3 (head inq1) as NULL" using E D Cons.prems(4) by auto
  have l3: "length hp3 = length hp" using E l1 by simp
  have it_as: "items hp3 as = items hp as"
  proof -
    have "items hp3 as = items ?hp2 as" using E asl l1 by (intro items_map_item) auto
    also have "\<dots> = items hp1 as" using abs(2) by (rule items_item_update)
    also have "\<dots> = items hp as" using D asl by (intro items_map_item) auto
    finally show ?thesis .
  qed
  have it_bs: "items hp3 (bs @ [a]) = items hp bs @ [r]"
  proof -
    have "items ?hp2 bs = items hp1 bs" using abs(1) by (rule items_item_update)
    also have "\<dots> = items hp bs" using D bsl by (intro items_map_item) auto
    finally show ?thesis using E al l1 by simp
  qed
  have x: "?x = req_id (item (hp ! a))" using D al by (metis length_map nth_map)
  from Cons.IH [OF pth3 _ conjunct1 [OF E] _ f(2), of ss'] Cons.prems(2,4) abs
  obtain hp' outq' where IH:
    "sim_drain st f' hp3 inq1 outq1 ss' =
       Some (hp', outq', fst (sim_loop st ss' (map req_id (items hp3 as)) []))"
    "queue_inv hp' outq' ((bs @ [a]) @ as)" "length hp' = length hp3"
    "items hp' ((bs @ [a]) @ as) = items hp3 (bs @ [a]) @ snd (sim_loop st ss' (map req_id (items hp3 as)) [])"
    by auto
  have run: "sim_drain st f hp inq outq ss = sim_drain st f' hp3 inq1 outq1 ss'"
    using f(1) ne deq p st enq by simp
  have loop: "sim_loop st ss (map req_id (items hp (a # as))) [] =
      (fst (sim_loop st ss' (map req_id (items hp as)) []), r # snd (sim_loop st ss' (map req_id (items hp as)) []))"
    using st x sim_loop_out [of st ss' _ "[r]"] by (simp add: items_def)
  show ?case using run IH loop it_as it_bs l3 by simp
qed

lemma distinct_bounded_length:
  "distinct cs \<Longrightarrow> \<forall>c \<in> set cs. c < n \<Longrightarrow> length cs \<le> n"
proof -
  assume d: "distinct cs" and b: "\<forall>c \<in> set cs. c < n"
  have "set cs \<subseteq> {..<n}" using b by auto
  then have "card (set cs) \<le> n" by (metis card_lessThan card_mono finite_lessThan)
  with d show ?thesis by (simp add: distinct_card)
qed

lemma length_enqueue_ids: "length (fst (enqueue_ids hp q xs)) = length hp + length xs"
  by (induction xs arbitrary: hp q) (simp_all add: split_beta NewNode_def Enqueue_def)

lemma distinct_all_below:
  "distinct cs \<Longrightarrow> \<forall>c \<in> set cs. c < n \<Longrightarrow> length cs = n \<Longrightarrow> set cs = {..<n}"
  by (metis card_lessThan card_subset_eq distinct_card finite_lessThan lessThan_iff subsetI)

text \<open>The queue \<open>ReadFileData\<close>'s loop builds holds every node of the heap.\<close>

lemma enqueue_ids_all:
  assumes "enqueue_ids [] NewQueue trace = (hp, q)"
  shows "\<exists>bs. queue_inv hp q bs \<and> map req_id (items hp bs) = trace \<and> set bs = {..<length hp}"
proof -
  from enqueue_ids_spec [OF NewQueue_inv assms] obtain bs where
    inv: "queue_inv hp q bs" and ids: "map req_id (items hp bs) = trace" by (auto simp: items_def)
  from inv have "path hp (head q) bs NULL" "distinct bs" by (auto simp: queue_inv_def)
  moreover have "length bs = length hp"
  proof -
    have "length bs = length trace" using arg_cong [OF ids, of length] by (simp add: items_def)
    then show ?thesis using length_enqueue_ids [of "[]" NewQueue trace] assms by simp
  qed
  ultimately have "set bs = {..<length hp}" by (intro distinct_all_below) (auto dest: path_lengths)
  with inv ids show ?thesis by blast
qed

text \<open>The heap-level simulation of a queue built by \<open>ReadFileData\<close>'s loop,
  with every node allocated, returns, prints what the list-level run of the
  policy prints, and frees every node exactly once.\<close>

lemma simulate_heap_spec:
  assumes "enqueue_ids [] NewQueue trace = (hp, q)"
  shows "simulate_heap st hp (replicate (length hp) True) q ss0 =
           Some (PrintValues (snd (sim_loop st ss0 trace [])), Inr (replicate (length hp) False))"
proof -
  from enqueue_ids_all [OF assms] obtain bs where
    inv: "queue_inv hp q bs" and ids: "map req_id (items hp bs) = trace" and all: "set bs = {..<length hp}"
    by blast
  from inv have pth: "path hp (head q) bs NULL" and d: "distinct bs" by (auto simp: queue_inv_def)
  have len: "length bs < Suc (length hp)"
    using distinct_bounded_length [OF d] path_lengths [OF pth] by (simp add: less_Suc_eq_le)
  from sim_drain_spec [OF pth d NewQueue_inv, where f = "Suc (length hp)" and st = st and ss = ss0] len
  obtain hp' outq' where dr:
    "sim_drain st (Suc (length hp)) hp q NewQueue ss0 =
       Some (hp', outq', fst (sim_loop st ss0 (map req_id (items hp bs)) []))"
    and inv': "queue_inv hp' outq' bs" and l': "length hp' = length hp"
    and it': "items hp' bs = snd (sim_loop st ss0 (map req_id (items hp bs)) [])"
    by (auto simp: items_def)
  have "walk (Suc (length hp')) hp' (head outq') = Some bs"
    using inv' len l' by (intro walk_path) (auto simp: queue_inv_def)
  moreover have "FreeQueue hp' (replicate (length hp) True) outq' = Some (Inr (replicate (length hp) False))"
    using FreeQueue_spec [OF inv', of "replicate (length hp) True"] all
      free_all_everything [of bs "replicate (length hp) True"] by simp
  ultimately show ?thesis using dr it' ids by (simp add: simulate_heap_def)
qed

section \<open>Properties every policy step passes on to the loop\<close>

lemma sim_loop_keeps:
  assumes "\<And>ss x. P ss \<Longrightarrow> x \<noteq> FREE \<Longrightarrow> P (fst (st ss x))" "P ss" "FREE \<notin> set xs"
  shows "P (fst (sim_loop st ss xs out))"
  using assms(2,3)
proof (induction xs arbitrary: ss out)
  case (Cons x xs)
  then have "P (fst (st ss x))" using assms(1) by simp
  with Cons show ?case by (simp add: split_beta)
qed simp

text \<open>Each record of the output is the reference, labelled by whether the frames
  held it just before it was processed.\<close>

lemma sim_loop_classify:
  assumes "\<And>ss x. snd (st ss x) = \<lparr>req_id = x, hitOrPageFault = label_of (SimContains ss x)\<rparr>"
  shows "snd (sim_loop st ss xs []) =
           map (\<lambda>i. \<lparr>req_id = xs ! i,
                     hitOrPageFault = label_of (SimContains (fst (sim_loop st ss (take i xs) [])) (xs ! i))\<rparr>)
             [0..<length xs]"
proof (induction xs arbitrary: ss)
  case Nil
  then show ?case by simp
next
  case (Cons x xs)
  let ?ss' = "fst (st ss x)"
  have run: "sim_loop st ss (x # ys) [] = (fst (sim_loop st ?ss' ys []), snd (st ss x) # snd (sim_loop st ?ss' ys []))"
    for ys using sim_loop_out [of st ?ss' ys "[snd (st ss x)]"] by (simp add: split_beta)
  have "snd (sim_loop st ss (x # xs) []) = snd (st ss x) # snd (sim_loop st ?ss' xs [])"
    by (simp only: run) simp
  also have "\<dots> = map (\<lambda>i. \<lparr>req_id = (x # xs) ! i,
                     hitOrPageFault = label_of (SimContains (fst (sim_loop st ss (take i (x # xs)) [])) ((x # xs) ! i))\<rparr>)
             [0..<length (x # xs)]"
  proof -
    have fo: "fst (sim_loop st ?ss' ys [r]) = fst (sim_loop st ?ss' ys [])" for ys r
      using sim_loop_out [of st ?ss' ys "[r]"] by (metis fst_conv)
    show ?thesis
      by (simp add: Cons.IH [of ?ss'] assms fo split_beta upt_conv_Cons map_Suc_upt [symmetric] del: upt_Suc)
  qed
  finally show ?case .
qed

text \<open>The ids the frames hold are the initial ones and the pages referenced.\<close>

lemma sim_loop_id_set:
  assumes "\<And>ss x. sim_id ` set (fst (st ss x)) \<subseteq> insert x (sim_id ` set ss)"
  shows "sim_id ` set (fst (sim_loop st ss xs out)) \<subseteq> sim_id ` set ss \<union> set xs"
proof (induction xs arbitrary: ss out)
  case (Cons x xs)
  from Cons.IH [of "fst (st ss x)" "out @ [snd (st ss x)]"] assms [of ss x]
  show ?case by (auto simp: split_beta)
qed simp


section \<open>The heap simulations against the list models\<close>

text \<open>C14: Run on the heap, on the input queue that \<open>ReadFileData\<close>'s loop builds
  from a trace, both simulations terminate (fuel one more than the number of
  nodes is enough), print exactly what the list-level models print (the queue
  delivers the references in input order and the output queue keeps them in
  that order), and \<open>FreeQueue\<close> then frees every node that was allocated,
  each exactly once: no leak, no use after free.\<close>

theorem heap_simulations_match:
  "SimulateFIFO_heap (fst (enqueue_ids [] NewQueue trace)) (replicate (length (fst (enqueue_ids [] NewQueue trace))) True)
       (snd (enqueue_ids [] NewQueue trace)) blk =
     Some (SimulateFIFO blk trace, Inr (replicate (length (fst (enqueue_ids [] NewQueue trace))) False)) \<and>
   SimulateLRU_heap (fst (enqueue_ids [] NewQueue trace)) (replicate (length (fst (enqueue_ids [] NewQueue trace))) True)
       (snd (enqueue_ids [] NewQueue trace)) blk =
     Some (SimulateLRU blk trace, Inr (replicate (length (fst (enqueue_ids [] NewQueue trace))) False))"
proof -
  obtain hp q where e: "enqueue_ids [] NewQueue trace = (hp, q)" by (cases "enqueue_ids [] NewQueue trace")
  show ?thesis
    using simulate_heap_spec [OF e, of fifo_step "fifo_init blk"] simulate_heap_spec [OF e, of lru_step "lru_init blk"]
    by (simp add: e SimulateFIFO_heap_def SimulateLRU_heap_def SimulateFIFO_def SimulateLRU_def
                  fifo_loop_is_sim_loop lru_loop_is_sim_loop)
qed

end
