(* ===== verification/Input.thy ===== *)
theory Input
  imports HeapSim
begin

text \<open>
  Reading the trace and the command line: the \<open>fscanf(inputFile, "%d", &pageID)\<close>
  loop of \<open>ReadFileData\<close> (lines 211--235) as a scanner over the file's
  characters, \<open>atoi\<close> and \<open>tolower\<close> as \<open>CheckAndInitialiseInput\<close>
  (lines 184--209) uses them, and the file system as a map from names to
  contents (a name it does not map cannot be opened). Integers are unbounded:
  the C conversions are undefined out of the \<open>int\<close> range, which the model does
  not follow.
\<close>

section \<open>Characters\<close>

text \<open>\<open>isspace\<close> in the C locale.\<close>

definition isspace_c :: "char \<Rightarrow> bool" where
  "isspace_c c \<longleftrightarrow> c = CHR '' '' \<or> c = CHR 0x09 \<or> c = CHR 0x0A \<or> c = CHR 0x0B \<or>
                    c = CHR 0x0C \<or> c = CHR 0x0D"

definition isdigit_c :: "char \<Rightarrow> bool" where
  "isdigit_c c \<longleftrightarrow> (48::nat) \<le> of_char c \<and> of_char c \<le> (57 :: nat)"

definition dec_val :: "string \<Rightarrow> int" where
  "dec_val ds = foldl (\<lambda>acc d. 10 * acc + int (of_char d - 48)) 0 ds"

section \<open>The conversion \<open>%d\<close>\<close>

text \<open>The optional sign of a conversion: whether it is \<open>-\<close>, and what follows.\<close>

definition strip_sign :: "string \<Rightarrow> bool \<times> string" where
  "strip_sign s =
     (case s of
        [] \<Rightarrow> (False, [])
      | c # r \<Rightarrow> (if c = CHR ''-'' then (True, r) else if c = CHR ''+'' then (False, r) else (False, s)))"

text \<open>One \<open>%d\<close> conversion: skip white space, an optional sign, then the longest
  run of digits, of which there must be at least one. \<open>None\<close> is both the
  matching failure (\<open>fscanf\<close> returns 0) and the end of input (\<open>EOF\<close>); the loop
  stops on either.\<close>

definition scan_int :: "string \<Rightarrow> (int \<times> string) option" where
  "scan_int s =
     (let (neg, s2) = strip_sign (dropWhile isspace_c s);
          ds = takeWhile isdigit_c s2
      in if ds = [] then None
         else Some (if neg then - dec_val ds else dec_val ds, dropWhile isdigit_c s2))"

lemma length_strip_sign: "length (snd (strip_sign s)) \<le> length s"
  by (cases s) (simp_all add: strip_sign_def)

lemma length_dropWhile_less:
  "takeWhile P xs \<noteq> [] \<Longrightarrow> length (dropWhile P xs) < length xs"
  by (cases xs) (auto split: if_splits simp: le_imp_less_Suc length_dropWhile_le)

lemma scan_int_shorter: "scan_int s = Some (v, rest) \<Longrightarrow> length rest < length s"
proof -
  assume sc: "scan_int s = Some (v, rest)"
  obtain neg s2 where ns: "strip_sign (dropWhile isspace_c s) = (neg, s2)"
    by (cases "strip_sign (dropWhile isspace_c s)")
  have "length s2 \<le> length (dropWhile isspace_c s)"
    using length_strip_sign [of "dropWhile isspace_c s"] ns by simp
  also have "\<dots> \<le> length s" by (rule length_dropWhile_le)
  finally have l: "length s2 \<le> length s" .
  from sc ns have ds: "takeWhile isdigit_c s2 \<noteq> []" and r: "rest = dropWhile isdigit_c s2"
    by (auto simp: scan_int_def Let_def split: if_splits)
  from length_dropWhile_less [OF ds] l r show ?thesis by simp
qed

text \<open>The \<open>while (fscanf(inputFile, "%d", &pageID) == 1)\<close> loop: the values read,
  up to the first token that is not a number.\<close>

function read_ints :: "string \<Rightarrow> int list" where
  "read_ints s = (case scan_int s of None \<Rightarrow> [] | Some (v, rest) \<Rightarrow> v # read_ints rest)"
  by pat_completeness auto
termination
  by (relation "measure length") (auto dest: scan_int_shorter)

declare read_ints.simps [simp del]

text \<open>\<open>ReadFileData\<close> (lines 211--235): \<open>fopen\<close> fails on a name the file system
  does not hold; otherwise the values read are enqueued, each in a new node, on a
  new queue. Allocation failures are not modelled.\<close>

definition ReadFileData :: "(string \<rightharpoonup> string) \<Rightarrow> string \<Rightarrow> (heap \<times> queue) option" where
  "ReadFileData fs name =
     (case fs name of None \<Rightarrow> None | Some txt \<Rightarrow> Some (enqueue_ids [] NewQueue (read_ints txt)))"

section \<open>The command line\<close>

text \<open>\<open>tolower\<close> in the C locale.\<close>

definition tolower_c :: "char \<Rightarrow> char" where
  "tolower_c c = (if (65::nat) \<le> of_char c \<and> of_char c \<le> (90 :: nat) then char_of (of_char c + (32 :: nat)) else c)"

text \<open>\<open>atoi\<close>: the same prefix as \<open>%d\<close>, and 0 when there is none.\<close>

definition atoi :: "string \<Rightarrow> int" where
  "atoi s = (case scan_int s of None \<Rightarrow> 0 | Some (v, _) \<Rightarrow> v)"

datatype config_error = BadArgCount | BadFrames | BadAlgorithm

text \<open>\<open>CheckAndInitialiseInput\<close> (lines 184--209): \<open>argv\<close> with \<open>argv[0]\<close>, so
  \<open>argc\<close> is its length. The algorithm name is lower-cased in place, the frame
  count is checked before the name is compared.\<close>

definition CheckAndInitialiseInput :: "string list \<Rightarrow> config_error + (PageReplacementAlgorithms \<times> int)" where
  "CheckAndInitialiseInput argv =
     (if length argv \<noteq> 5 then Inl BadArgCount
      else (let alg = map tolower_c (argv ! 1); frames = atoi (argv ! 2)
            in if frames < 1 then Inl BadFrames
               else if alg = ''fifo'' then Inr (FIFO, frames)
               else if alg = ''lru'' then Inr (LRU, frames)
               else Inl BadAlgorithm))"

section \<open>Printing and reading back\<close>

lemma digit_char: "(d :: nat) < 10 \<Longrightarrow> isdigit_c (char_of (48 + d)) \<and> of_char (char_of (48 + d)) = 48 + d"
  by (simp add: isdigit_c_def)

lemma nat_digits_digits: "nat_digits n \<noteq> [] \<and> (\<forall>c \<in> set (nat_digits n). isdigit_c c)"
proof (induction n rule: nat_digits.induct)
  case (1 n)
  show ?case
  proof (cases "n < 10")
    case True
    then show ?thesis using digit_char [of n] by (simp add: nat_digits.simps [of n])
  next
    case False
    with "1" digit_char [of "n mod 10"] show ?thesis by (simp add: nat_digits.simps [of n])
  qed
qed

lemma dec_val_snoc: "dec_val (ds @ [d]) = 10 * dec_val ds + int (of_char d - 48)"
  by (simp add: dec_val_def)

lemma dec_val_nat_digits: "dec_val (nat_digits n) = int n"
proof (induction n rule: nat_digits.induct)
  case (1 n)
  show ?case
  proof (cases "n < 10")
    case True
    then show ?thesis using digit_char [of n] by (subst nat_digits.simps) (simp add: dec_val_def)
  next
    case False
    with "1" have "dec_val (nat_digits (n div 10)) = int (n div 10)" by simp
    have "int n = 10 * int (n div 10) + int (n mod 10)"
      by (metis div_mult_mod_eq mult.commute of_nat_add of_nat_mult of_nat_numeral)
    with False \<open>dec_val (nat_digits (n div 10)) = int (n div 10)\<close> show ?thesis
      using digit_char [of "n mod 10"] by (simp add: nat_digits.simps [of n] dec_val_snoc)
  qed
qed

lemma show_int_first:
  "show_int i = c # r \<Longrightarrow> \<not> isspace_c c \<and> c \<noteq> CHR ''+''"
  using nat_digits_digits [of "nat i"] nat_digits_digits [of "nat (- i)"]
  by (cases "nat_digits (nat i)"; cases "i < 0")
     (auto simp: show_int_def isspace_c_def isdigit_c_def)

lemma scan_show_int_append:
  assumes "\<forall>c r. rest = c # r \<longrightarrow> \<not> isdigit_c c"
  shows "scan_int (show_int i @ rest) = Some (i, rest)"
proof -
  have tw: "\<And>ds. \<forall>c \<in> set ds. isdigit_c c \<Longrightarrow>
      takeWhile isdigit_c (ds @ rest) = ds \<and> dropWhile isdigit_c (ds @ rest) = rest"
    using assms by (cases rest) (simp_all add: takeWhile_append2 dropWhile_append2)
  obtain c r where cr: "show_int i = c # r"
    using nat_digits_digits [of "nat i"] nat_digits_digits [of "nat (- i)"]
    by (cases "show_int i") (auto simp: show_int_def split: if_splits)
  have dw: "dropWhile isspace_c (show_int i @ rest) = show_int i @ rest"
    using show_int_first [OF cr] cr by simp
  show ?thesis
  proof (cases "i < 0")
    case True
    have "strip_sign (show_int i @ rest) = (True, nat_digits (nat (- i)) @ rest)"
      using True by (simp add: show_int_def strip_sign_def)
    with True dw tw [of "nat_digits (nat (- i))"] nat_digits_digits [of "nat (- i)"] show ?thesis
      by (simp add: scan_int_def dec_val_nat_digits)
  next
    case False
    have d: "\<forall>c \<in> set (nat_digits (nat i)). isdigit_c c" "nat_digits (nat i) \<noteq> []"
      using nat_digits_digits [of "nat i"] by auto
    have "CHR ''-'' \<notin> set (nat_digits (nat i))" "CHR ''+'' \<notin> set (nat_digits (nat i))"
      using d(1) by (auto simp: isdigit_c_def)
    with d(2) have "strip_sign (show_int i @ rest) = (False, nat_digits (nat i) @ rest)"
      using False by (cases "nat_digits (nat i)") (auto simp: show_int_def strip_sign_def)
    with False dw tw [OF d(1)] d(2) show ?thesis
      by (simp add: scan_int_def dec_val_nat_digits)
  qed
qed

lemma scan_show_int:
  "scan_int (show_int i @ CHR 0x0A # rest) = Some (i, CHR 0x0A # rest)"
  by (rule scan_show_int_append) (simp add: isdigit_c_def)

lemma scan_int_skip_space: "isspace_c c \<Longrightarrow> scan_int (c # s) = scan_int s"
  by (simp add: scan_int_def)

lemma read_ints_skip_space: "isspace_c c \<Longrightarrow> read_ints (c # s) = read_ints s"
  by (simp add: read_ints.simps [of "c # s"] read_ints.simps [of s] scan_int_skip_space)

lemma read_ints_Nil: "read_ints [] = []"
  by (simp add: read_ints.simps scan_int_def strip_sign_def)


text \<open>A character that is neither white space, nor a sign, nor a digit starts no
  conversion: \<open>fscanf\<close> returns 0 there.\<close>

lemma read_ints_stop:
  assumes "\<not> isspace_c c" "\<not> isdigit_c c" "c \<noteq> CHR ''+''" "c \<noteq> CHR ''-''"
  shows "read_ints (c # rest) = []"
  using assms by (simp add: read_ints.simps [of "c # rest"] scan_int_def strip_sign_def)

text \<open>Reading a printed trace followed by more input: the printed values, then
  what the rest yields.\<close>

lemma read_ints_print_append:
  "read_ints (concat (map (\<lambda>i. show_int i @ [CHR 0x0A]) xs) @ rest) = xs @ read_ints rest"
proof (induction xs)
  case Nil
  then show ?case by simp
next
  case (Cons x xs)
  let ?rest = "concat (map (\<lambda>i. show_int i @ [CHR 0x0A]) xs) @ rest"
  have "read_ints (show_int x @ CHR 0x0A # ?rest) = x # read_ints (CHR 0x0A # ?rest)"
    by (simp add: read_ints.simps [of "show_int x @ CHR 0x0A # ?rest"] scan_show_int)
  also have "\<dots> = x # xs @ read_ints rest"
    using Cons.IH by (simp add: read_ints_skip_space isspace_c_def)
  finally show ?case by simp
qed

end
