(* ===== verification/Program.thy ===== *)
theory Program
  imports Input
begin

text \<open>
  \<open>main\<close> (lines 53--79): validate the command line, copy the two file names
  into 50-byte buffers, read the trace, dispatch on the algorithm. The result is
  either the reason the run ends early, or the output file's name with what
  \<open>PrintValues\<close> writes into it. The malloc'd frame block holds zeros; the
  FIFO output does not depend on it and the LRU initialisation overwrites it.
  Every node of the heap \<open>ReadFileData\<close> returns was allocated by it and is
  live when the simulation starts.
  Opening the output file is assumed to succeed.
\<close>

text \<open>How a run ends without output. \<open>NameOverflow\<close> is not an exit of the C
  program: \<open>strcpy\<close> into \<open>char[50]\<close> with a longer name is a buffer overflow,
  undefined behaviour, which the model reports instead of continuing.
  \<open>Diverges\<close> is the fuel of the heap loops running out, and \<open>MemoryError\<close> a
  \<open>FreeQueue\<close> that touches a freed node; \<open>heap_simulations_match\<close> shows that
  neither happens. \<open>OutOfMemory\<close> and \<open>NullDeref\<close> are the ends of a run in which
  \<open>malloc\<close> fails (theory \<open>Alloc\<close>): the checked exits after the message
  \<open>"System ran out of memory"\<close>, and the dereference of an unchecked \<open>NULL\<close>.
  \<open>CannotOpenOutput\<close> is the exit of \<open>PrintValues\<close> when the output file cannot
  be opened for writing (also theory \<open>Alloc\<close>).\<close>

datatype main_error = ConfigError config_error | NameOverflow | CannotOpenInput | Diverges
  | MemoryError mem_error | OutOfMemory | NullDeref | CannotOpenOutput

definition file_name_size :: nat where "file_name_size = 50"

definition main :: "string list \<Rightarrow> (string \<rightharpoonup> string) \<Rightarrow> main_error + (string \<times> (string list \<times> c_float))" where
  "main argv fs =
     (case CheckAndInitialiseInput argv of
        Inl e \<Rightarrow> Inl (ConfigError e)
      | Inr (alg, totalFrames) \<Rightarrow>
          (if \<not> strcpy_fits file_name_size (argv ! 3) \<or> \<not> strcpy_fits file_name_size (argv ! 4)
           then Inl NameOverflow
           else (case ReadFileData fs (argv ! 3) of
                   None \<Rightarrow> Inl CannotOpenInput
                 | Some (hp, inq) \<Rightarrow>
                     (let blk = replicate (nat totalFrames) \<lparr>sim_id = 0, timesRequested = 0\<rparr>;
                          lv = replicate (length hp) True;
                          res = (case alg of FIFO \<Rightarrow> SimulateFIFO_heap hp lv inq blk
                                           | LRU \<Rightarrow> SimulateLRU_heap hp lv inq blk)
                      in case res of
                           None \<Rightarrow> Inl Diverges
                         | Some (out, Inl e) \<Rightarrow> Inl (MemoryError e)
                         | Some (out, Inr lv') \<Rightarrow> Inr (argv ! 4, out)))))"

end
