(* ===== verification/Alloc.thy ===== *)
theory Alloc
  imports Program
begin

text \<open>
  The paths on which \<open>malloc\<close> fails. Whether an allocation succeeds is not under
  the program's control, so a run takes the outcomes of its \<open>malloc\<close> calls, in
  call order, as an input (an oracle; once the list is used up every allocation
  succeeds). The allocating functions return \<open>None\<close> for \<open>NULL\<close>. \<open>ReadFileData\<close>
  checks each of its allocations and returns \<open>NULL\<close>, after which \<open>main\<close>
  exits; \<open>SimulateFIFO\<close> and \<open>SimulateLRU\<close> check the frame block but not the
  output queue. The other outcome the environment decides is whether the output
  file can be opened for writing: a predicate \<open>writable\<close> on file names, checked
  by \<open>PrintValues\<close> before it writes. With no failing allocation and a writable
  output file the model is the one of theory \<open>Program\<close>. Leaks on the exit
  paths are not tracked: the process ends there.
  Claims C27--C30, at the end, are the behaviour of \<open>main\<close> on these paths.
\<close>

type_synonym malloc_oracle = "bool list"

definition malloc :: "malloc_oracle \<Rightarrow> bool \<times> malloc_oracle" where
  "malloc ao = (case ao of [] \<Rightarrow> (True, []) | b # bs \<Rightarrow> (b, bs))"

text \<open>\<open>NewPageRequest\<close> (lines 81--89), \<open>NewNode\<close> (lines 91--100) and
  \<open>NewQueue\<close> (lines 102--110) with the \<open>temp == NULL\<close> branch.\<close>

definition NewPageRequest_m :: "int \<Rightarrow> malloc_oracle \<Rightarrow> page_request option \<times> malloc_oracle" where
  "NewPageRequest_m i ao = (let (ok, ao') = malloc ao in (if ok then Some (NewPageRequest i) else None, ao'))"

definition NewNode_m :: "heap \<Rightarrow> page_request \<Rightarrow> malloc_oracle \<Rightarrow> (heap \<times> ptr) option \<times> malloc_oracle" where
  "NewNode_m hp r ao = (let (ok, ao') = malloc ao in (if ok then Some (NewNode hp r) else None, ao'))"

definition NewQueue_m :: "malloc_oracle \<Rightarrow> queue option \<times> malloc_oracle" where
  "NewQueue_m ao = (let (ok, ao') = malloc ao in (if ok then Some NewQueue else None, ao'))"

text \<open>The loop of \<open>ReadFileData\<close> (lines 222--232) with its two checks: a failed
  allocation returns \<open>NULL\<close> at once.\<close>

fun read_loop_m :: "heap \<Rightarrow> queue \<Rightarrow> int list \<Rightarrow> malloc_oracle \<Rightarrow>
                     (main_error + heap \<times> queue) \<times> malloc_oracle" where
  "read_loop_m hp q [] ao = (Inr (hp, q), ao)"
| "read_loop_m hp q (x # xs) ao =
     (case NewPageRequest_m x ao of
        (None, ao1) \<Rightarrow> (Inl OutOfMemory, ao1)
      | (Some newPage, ao1) \<Rightarrow>
          (case NewNode_m hp newPage ao1 of
             (None, ao2) \<Rightarrow> (Inl OutOfMemory, ao2)
           | (Some (hp1, newNode), ao2) \<Rightarrow>
               (let (hp2, q2) = Enqueue hp1 q newNode in read_loop_m hp2 q2 xs ao2)))"

text \<open>\<open>ReadFileData\<close> (lines 211--235): \<open>NULL\<close> when the file cannot be opened or an
  allocation fails; the two are told apart by the message printed.\<close>

definition ReadFileData_m :: "(string \<rightharpoonup> string) \<Rightarrow> string \<Rightarrow> malloc_oracle \<Rightarrow>
                               (main_error + heap \<times> queue) \<times> malloc_oracle" where
  "ReadFileData_m fs name ao =
     (case fs name of
        None \<Rightarrow> (Inl CannotOpenInput, ao)
      | Some txt \<Rightarrow>
          (case NewQueue_m ao of
             (None, ao1) \<Rightarrow> (Inl OutOfMemory, ao1)
           | (Some inputQueue, ao1) \<Rightarrow> read_loop_m [] inputQueue (read_ints txt) ao1))"

text \<open>The start of \<open>PrintValues\<close> (lines 330--335): \<open>fopen(outputFileName, "w")\<close>,
  and \<open>exit(0)\<close> when it returns \<open>NULL\<close>; otherwise the output is written.\<close>

definition PrintValues_open :: "(string \<Rightarrow> bool) \<Rightarrow> string \<Rightarrow> string list \<times> c_float \<Rightarrow>
                                 main_error + (string list \<times> c_float)" where
  "PrintValues_open writable outputFileName out =
     (if writable outputFileName then Inr out else Inl CannotOpenOutput)"

text \<open>\<open>SimulateFIFO\<close> and \<open>SimulateLRU\<close> (lines 237--279, 281--327): the frame
  block's \<open>malloc\<close> is checked and ends the program; the output queue's
  \<open>NewQueue\<close> is not, and its \<open>NULL\<close> is dereferenced by the first \<open>Enqueue\<close> or, on
  an empty trace, by \<open>PrintValues\<close> after it has opened the output file, so an
  unwritable output file is reported first there. \<open>PrintValues\<close> opens the
  file before it walks the queue, and \<open>FreeQueue\<close> runs only after it returns.\<close>

definition simulate_m :: "policy_step \<Rightarrow> (sim_node list \<Rightarrow> sim_node list) \<Rightarrow> (string \<Rightarrow> bool) \<Rightarrow> string \<Rightarrow>
                           heap \<Rightarrow> live \<Rightarrow> queue \<Rightarrow> sim_node list \<Rightarrow> malloc_oracle \<Rightarrow>
                           main_error + (string list \<times> c_float)" where
  "simulate_m st init writable outputFileName hp lv inq blk ao =
     (let (ok, ao1) = malloc ao
      in if \<not> ok then Inl OutOfMemory
         else (case NewQueue_m ao1 of
                 (None, ao2) \<Rightarrow>
                   (if IsQueueEmpty inq \<and> \<not> writable outputFileName then Inl CannotOpenOutput
                    else Inl NullDeref)
               | (Some outputQueue, ao2) \<Rightarrow>
                   (case simulate_heap st hp lv inq (init blk) of
                      None \<Rightarrow> Inl Diverges
                    | Some (out, freed) \<Rightarrow>
                        (case PrintValues_open writable outputFileName out of
                           Inl e \<Rightarrow> Inl e
                         | Inr printed \<Rightarrow>
                             (case freed of Inl e \<Rightarrow> Inl (MemoryError e) | Inr lv' \<Rightarrow> Inr printed)))))"

definition SimulateFIFO_m :: "(string \<Rightarrow> bool) \<Rightarrow> string \<Rightarrow> heap \<Rightarrow> live \<Rightarrow> queue \<Rightarrow> sim_node list \<Rightarrow>
                               malloc_oracle \<Rightarrow> main_error + (string list \<times> c_float)" where
  "SimulateFIFO_m = simulate_m fifo_step fifo_init"

definition SimulateLRU_m :: "(string \<Rightarrow> bool) \<Rightarrow> string \<Rightarrow> heap \<Rightarrow> live \<Rightarrow> queue \<Rightarrow> sim_node list \<Rightarrow>
                              malloc_oracle \<Rightarrow> main_error + (string list \<times> c_float)" where
  "SimulateLRU_m = simulate_m lru_step lru_init"

text \<open>\<open>main\<close> (lines 53--79) with the allocation outcomes and the writable files.\<close>

definition main_m :: "string list \<Rightarrow> (string \<rightharpoonup> string) \<Rightarrow> (string \<Rightarrow> bool) \<Rightarrow> malloc_oracle \<Rightarrow>
                       main_error + (string \<times> (string list \<times> c_float))" where
  "main_m argv fs writable ao =
     (case CheckAndInitialiseInput argv of
        Inl e \<Rightarrow> Inl (ConfigError e)
      | Inr (alg, totalFrames) \<Rightarrow>
          (if \<not> strcpy_fits file_name_size (argv ! 3) \<or> \<not> strcpy_fits file_name_size (argv ! 4)
           then Inl NameOverflow
           else (case ReadFileData_m fs (argv ! 3) ao of
                   (Inl e, ao1) \<Rightarrow> Inl e
                 | (Inr (hp, inq), ao1) \<Rightarrow>
                     (let blk = replicate (nat totalFrames) \<lparr>sim_id = 0, timesRequested = 0\<rparr>;
                          lv = replicate (length hp) True;
                          res = (case alg of FIFO \<Rightarrow> SimulateFIFO_m writable (argv ! 4) hp lv inq blk ao1
                                           | LRU \<Rightarrow> SimulateLRU_m writable (argv ! 4) hp lv inq blk ao1)
                      in case res of Inl e \<Rightarrow> Inl e | Inr out \<Rightarrow> Inr (argv ! 4, out)))))"

section \<open>Lemmas\<close>

lemma malloc_True: "set ao \<subseteq> {True} \<Longrightarrow> malloc ao = (True, tl ao) \<and> set (tl ao) \<subseteq> {True}"
  by (cases ao) (auto simp: malloc_def)

lemma malloc_Cons [simp]: "malloc (b # ao) = (b, ao)"
  by (simp add: malloc_def)

lemma read_loop_m_ok:
  "set ao \<subseteq> {True} \<Longrightarrow> \<exists>ao'. read_loop_m hp q xs ao = (Inr (enqueue_ids hp q xs), ao') \<and> set ao' \<subseteq> {True}"
proof (induction xs arbitrary: hp q ao)
  case Nil
  then show ?case by simp
next
  case (Cons x xs)
  from malloc_True [OF Cons.prems] have m1: "malloc ao = (True, tl ao)" "set (tl ao) \<subseteq> {True}" by auto
  from malloc_True [OF m1(2)] have m2: "malloc (tl ao) = (True, tl (tl ao))" "set (tl (tl ao)) \<subseteq> {True}" by auto
  obtain hp1 n where nn: "NewNode hp (NewPageRequest x) = (hp1, n)" by (cases "NewNode hp (NewPageRequest x)")
  obtain hp2 q2 where enq: "Enqueue hp1 q n = (hp2, q2)" by (cases "Enqueue hp1 q n")
  from Cons.IH [OF m2(2), of hp2 q2] obtain ao' where
    "read_loop_m hp2 q2 xs (tl (tl ao)) = (Inr (enqueue_ids hp2 q2 xs), ao')" "set ao' \<subseteq> {True}" by blast
  then show ?case using m1 m2 nn enq by (simp add: NewPageRequest_m_def NewNode_m_def)
qed

lemma read_loop_m_exact:
  "read_loop_m hp q xs (replicate (2 * length xs) True @ ao) = (Inr (enqueue_ids hp q xs), ao)"
proof (induction xs arbitrary: hp q)
  case (Cons x xs)
  obtain hp1 n where nn: "NewNode hp (NewPageRequest x) = (hp1, n)" by (cases "NewNode hp (NewPageRequest x)")
  obtain hp2 q2 where enq: "Enqueue hp1 q n = (hp2, q2)" by (cases "Enqueue hp1 q n")
  have "replicate (2 * length (x # xs)) True @ ao = True # True # (replicate (2 * length xs) True @ ao)"
    by (simp add: numeral_2_eq_2)
  with Cons.IH [of hp2 q2] nn enq show ?case by (simp add: NewPageRequest_m_def NewNode_m_def)
qed simp

lemma read_loop_m_fail:
  "k < 2 * length xs \<Longrightarrow> fst (read_loop_m hp q xs (replicate k True @ False # ao)) = Inl OutOfMemory"
proof (induction xs arbitrary: hp q k)
  case Nil
  then show ?case by simp
next
  case (Cons x xs)
  obtain hp1 n where nn: "NewNode hp (NewPageRequest x) = (hp1, n)" by (cases "NewNode hp (NewPageRequest x)")
  obtain hp2 q2 where enq: "Enqueue hp1 q n = (hp2, q2)" by (cases "Enqueue hp1 q n")
  consider "k = 0" | "k = 1" | j where "k = Suc (Suc j)" by (cases k; cases "k - 1") auto
  then show ?case
  proof cases
    case 3
    with Cons.prems have "j < 2 * length xs" by simp
    with Cons.IH [of j hp2 q2] 3 nn enq show ?thesis by (simp add: NewPageRequest_m_def NewNode_m_def)
  qed (simp_all add: NewPageRequest_m_def NewNode_m_def)
qed

lemma ReadFileData_m_ok:
  assumes "set ao \<subseteq> {True}"
  shows "\<exists>ao'. ReadFileData_m fs name ao =
           (case ReadFileData fs name of None \<Rightarrow> Inl CannotOpenInput | Some r \<Rightarrow> Inr r, ao') \<and> set ao' \<subseteq> {True}"
proof (cases "fs name")
  case None
  then show ?thesis using assms by (simp add: ReadFileData_m_def ReadFileData_def)
next
  case (Some content)
  from malloc_True [OF assms] have m: "malloc ao = (True, tl ao)" "set (tl ao) \<subseteq> {True}" by auto
  from read_loop_m_ok [OF m(2), of "[]" NewQueue "read_ints content"] Some m show ?thesis
    by (auto simp: ReadFileData_m_def ReadFileData_def NewQueue_m_def)
qed

lemma simulate_m_ok:
  assumes "set ao \<subseteq> {True}"
  shows "simulate_m st init writable name hp lv inq blk ao =
           (case simulate_heap st hp lv inq (init blk) of
              None \<Rightarrow> Inl Diverges
            | Some (out, freed) \<Rightarrow>
                (if \<not> writable name then Inl CannotOpenOutput
                 else (case freed of Inl e \<Rightarrow> Inl (MemoryError e) | Inr lv' \<Rightarrow> Inr out)))"
proof -
  from malloc_True [OF assms] have m: "malloc ao = (True, tl ao)" "set (tl ao) \<subseteq> {True}" by auto
  from malloc_True [OF m(2)] have "malloc (tl ao) = (True, tl (tl ao))" by simp
  with m show ?thesis by (simp add: simulate_m_def NewQueue_m_def PrintValues_open_def split: option.split)
qed

lemma ReadFileData_m_exact:
  "fs name = Some content \<Longrightarrow>
   ReadFileData_m fs name (True # replicate (2 * length (read_ints content)) True @ ao) =
     (Inr (enqueue_ids [] NewQueue (read_ints content)), ao)"
  by (simp add: ReadFileData_m_def NewQueue_m_def read_loop_m_exact)

lemma ReadFileData_m_fail:
  "fs name = Some content \<Longrightarrow> k \<le> 2 * length (read_ints content) \<Longrightarrow>
   fst (ReadFileData_m fs name (replicate k True @ False # ao)) = Inl OutOfMemory"
proof (cases k)
  case (Suc j)
  moreover assume "fs name = Some content" "k \<le> 2 * length (read_ints content)"
  ultimately show ?thesis
    using read_loop_m_fail [of j "read_ints content" "[]" NewQueue ao]
    by (simp add: ReadFileData_m_def NewQueue_m_def)
qed (simp add: ReadFileData_m_def NewQueue_m_def)


section \<open>Failing allocations and the output file\<close>

text \<open>C27: When every \<open>malloc\<close> succeeds and the output file can be opened, the
  program with its allocation and \<open>fopen\<close> checks behaves exactly as the model of
  \<open>main\<close> that assumes success: the checks add no behaviour of their own.\<close>

theorem main_m_refines:
  assumes "set ao \<subseteq> {True}" and "writable (argv ! 4)"
  shows "main_m argv fs writable ao = main argv fs"
proof (cases "CheckAndInitialiseInput argv")
  case (Inl e)
  then show ?thesis by (simp add: main_m_def main_def)
next
  case (Inr cfg)
  obtain alg n where cfg: "cfg = (alg, n)" by (cases cfg)
  from ReadFileData_m_ok [OF assms(1), of fs "argv ! 3"] obtain ao' where
    r: "ReadFileData_m fs (argv ! 3) ao =
          (case ReadFileData fs (argv ! 3) of None \<Rightarrow> Inl CannotOpenInput | Some r \<Rightarrow> Inr r, ao')"
    and ao': "set ao' \<subseteq> {True}" by blast
  show ?thesis
    using Inr cfg r simulate_m_ok [OF ao'] assms(2)
    by (cases alg; cases "ReadFileData fs (argv ! 3)")
       (auto simp: main_m_def main_def SimulateFIFO_m_def SimulateLRU_m_def SimulateFIFO_heap_def SimulateLRU_heap_def
             split: option.splits sum.splits)
qed

theorem main_m_refines_witness:
  "set [True, True] \<subseteq> {True} \<and> (\<lambda>_. True) ([''sim'', ''lru'', ''2'', ''t'', ''o''] ! 4) \<and>
   main_m [''sim'', ''lru'', ''2'', ''t'', ''o''] [''t'' \<mapsto> ''4''] (\<lambda>_. True) [True, True] =
     main [''sim'', ''lru'', ''2'', ''t'', ''o''] [''t'' \<mapsto> ''4'']"
  using main_m_refines [where ao = "[True, True]" and argv = "[''sim'', ''lru'', ''2'', ''t'', ''o'']"
      and fs = "[''t'' \<mapsto> ''4'']" and writable = "\<lambda>_. True"] by simp

text \<open>C28: If any allocation of \<open>ReadFileData\<close> fails (the input queue, or the
  request or the node of any value read), the program exits with the
  out-of-memory message, whatever the later allocations would do.\<close>

theorem main_m_read_alloc_fails:
  assumes "CheckAndInitialiseInput argv = Inr (alg, totalFrames)"
    and "length (argv ! 3) < 50" and "length (argv ! 4) < 50" and "fs (argv ! 3) = Some content"
    and "k \<le> 2 * length (read_ints content)"
  shows "main_m argv fs writable (replicate k True @ False # ao) = Inl OutOfMemory"
proof -
  obtain ao1 where "ReadFileData_m fs (argv ! 3) (replicate k True @ False # ao) = (Inl OutOfMemory, ao1)"
    using ReadFileData_m_fail [where fs = fs and name = "argv ! 3" and content = content and k = k and ao = ao,
        OF assms(4,5)]
    by (metis prod.collapse)
  with assms(1-3) show ?thesis by (simp add: main_m_def strcpy_fits_def file_name_size_def)
qed

theorem main_m_read_alloc_fails_witness:
  "CheckAndInitialiseInput [''sim'', ''fifo'', ''1'', ''t'', ''o''] = Inr (FIFO, 1) \<and>
   length ([''sim'', ''fifo'', ''1'', ''t'', ''o''] ! 3) < 50 \<and>
   length ([''sim'', ''fifo'', ''1'', ''t'', ''o''] ! 4) < 50 \<and>
   [''t'' \<mapsto> ''5''] ([''sim'', ''fifo'', ''1'', ''t'', ''o''] ! 3) = Some ''5'' \<and>
   (2 :: nat) \<le> 2 * length (read_ints ''5'') \<and>
   main_m [''sim'', ''fifo'', ''1'', ''t'', ''o''] [''t'' \<mapsto> ''5''] (\<lambda>_. True) (replicate 2 True @ [False]) =
     Inl OutOfMemory"
proof -
  have c: "CheckAndInitialiseInput [''sim'', ''fifo'', ''1'', ''t'', ''o''] = Inr (FIFO, 1)" by code_simp
  have r: "read_ints ''5'' = [5]" by code_simp
  from main_m_read_alloc_fails [OF c, where fs = "[''t'' \<mapsto> ''5'']" and content = "''5''" and k = 2
      and ao = "[]" and writable = "\<lambda>_. True"] c r show ?thesis by simp
qed

text \<open>C29: After the trace is read, a failure of the frame block's \<open>malloc\<close> is
  checked and ends the program with the out-of-memory message, but a failure of
  the output queue's \<open>NewQueue\<close> is not checked: with a writable output file the
  run dereferences \<open>NULL\<close>.\<close>

theorem main_m_output_queue_unchecked:
  assumes "CheckAndInitialiseInput argv = Inr (alg, totalFrames)"
    and "length (argv ! 3) < 50" and "length (argv ! 4) < 50" and "fs (argv ! 3) = Some content"
    and "writable (argv ! 4)"
  shows "main_m argv fs writable (replicate (1 + 2 * length (read_ints content)) True @ [False]) = Inl OutOfMemory \<and>
         main_m argv fs writable (replicate (2 + 2 * length (read_ints content)) True @ [False]) = Inl NullDeref"
proof -
  let ?n = "2 * length (read_ints content)"
  have e1: "replicate (1 + ?n) True @ [False] = True # replicate ?n True @ [False]" by simp
  have e2: "replicate (2 + ?n) True @ [False] = True # replicate ?n True @ [True, False]"
    by (simp add: replicate_app_Cons_same)
  have r1: "ReadFileData_m fs (argv ! 3) (True # replicate ?n True @ [False]) =
      (Inr (enqueue_ids [] NewQueue (read_ints content)), [False])"
    using ReadFileData_m_exact [where fs = fs and name = "argv ! 3" and content = content and ao = "[False]", OF assms(4)] .
  have r2: "ReadFileData_m fs (argv ! 3) (True # replicate ?n True @ [True, False]) =
      (Inr (enqueue_ids [] NewQueue (read_ints content)), [True, False])"
    using ReadFileData_m_exact [where fs = fs and name = "argv ! 3" and content = content and ao = "[True, False]", OF assms(4)] .
  have "main_m argv fs writable (True # replicate ?n True @ [False]) = Inl OutOfMemory"
    using assms(1-3) r1
    by (cases alg) (simp_all add: main_m_def strcpy_fits_def file_name_size_def SimulateFIFO_m_def
                                  SimulateLRU_m_def simulate_m_def)
  moreover have "main_m argv fs writable (True # replicate ?n True @ [True, False]) = Inl NullDeref"
    using assms(1-3,5) r2
    by (cases alg) (simp_all add: main_m_def strcpy_fits_def file_name_size_def SimulateFIFO_m_def
                                  SimulateLRU_m_def simulate_m_def NewQueue_m_def)
  ultimately show ?thesis by (simp only: e1 e2)
qed

theorem main_m_output_queue_unchecked_witness:
  "CheckAndInitialiseInput [''sim'', ''lru'', ''1'', ''t'', ''o''] = Inr (LRU, 1) \<and>
   length ([''sim'', ''lru'', ''1'', ''t'', ''o''] ! 3) < 50 \<and>
   length ([''sim'', ''lru'', ''1'', ''t'', ''o''] ! 4) < 50 \<and>
   [''t'' \<mapsto> ''5''] ([''sim'', ''lru'', ''1'', ''t'', ''o''] ! 3) = Some ''5'' \<and>
   (\<lambda>_. True) ([''sim'', ''lru'', ''1'', ''t'', ''o''] ! 4) \<and>
   main_m [''sim'', ''lru'', ''1'', ''t'', ''o''] [''t'' \<mapsto> ''5''] (\<lambda>_. True) (replicate 4 True @ [False]) =
     Inl NullDeref"
proof -
  have c: "CheckAndInitialiseInput [''sim'', ''lru'', ''1'', ''t'', ''o''] = Inr (LRU, 1)" by code_simp
  have r: "read_ints ''5'' = [5]" by code_simp
  from main_m_output_queue_unchecked [OF c, where fs = "[''t'' \<mapsto> ''5'']" and content = "''5''"
      and writable = "\<lambda>_. True"] c r show ?thesis
    by (simp add: numeral_eq_Suc)
qed

text \<open>C30: When the trace has been read and simulated but the output file cannot be
  opened for writing, the program exits from \<open>PrintValues\<close> with the
  cannot-open message and writes no result.\<close>

theorem main_m_output_unwritable:
  assumes "CheckAndInitialiseInput argv = Inr (alg, totalFrames)"
    and "length (argv ! 3) < 50" and "length (argv ! 4) < 50" and "fs (argv ! 3) = Some content"
    and "set ao \<subseteq> {True}" and "\<not> writable (argv ! 4)"
  shows "main_m argv fs writable ao = Inl CannotOpenOutput"
proof -
  obtain hp q where e: "enqueue_ids [] NewQueue (read_ints content) = (hp, q)" by fastforce
  from ReadFileData_m_ok [OF assms(5), of fs "argv ! 3"] assms(4) e obtain ao' where
    r: "ReadFileData_m fs (argv ! 3) ao = (Inr (hp, q), ao')" and ao': "set ao' \<subseteq> {True}"
    by (auto simp: ReadFileData_def)
  show ?thesis
    using assms(1-3,6) r simulate_m_ok [OF ao'] simulate_heap_spec [OF e]
    by (cases alg) (simp_all add: main_m_def strcpy_fits_def file_name_size_def SimulateFIFO_m_def SimulateLRU_m_def)
qed

theorem main_m_output_unwritable_witness:
  "CheckAndInitialiseInput [''sim'', ''fifo'', ''1'', ''t'', ''o''] = Inr (FIFO, 1) \<and>
   length ([''sim'', ''fifo'', ''1'', ''t'', ''o''] ! 3) < 50 \<and>
   length ([''sim'', ''fifo'', ''1'', ''t'', ''o''] ! 4) < 50 \<and>
   [''t'' \<mapsto> ''5''] ([''sim'', ''fifo'', ''1'', ''t'', ''o''] ! 3) = Some ''5'' \<and>
   set [True, True, True, True] \<subseteq> {True} \<and> \<not> (\<lambda>f. f \<noteq> ''o'') ([''sim'', ''fifo'', ''1'', ''t'', ''o''] ! 4) \<and>
   main_m [''sim'', ''fifo'', ''1'', ''t'', ''o''] [''t'' \<mapsto> ''5''] (\<lambda>f. f \<noteq> ''o'') [True, True, True, True] =
     Inl CannotOpenOutput"
proof -
  have c: "CheckAndInitialiseInput [''sim'', ''fifo'', ''1'', ''t'', ''o''] = Inr (FIFO, 1)" by code_simp
  from main_m_output_unwritable [OF c, where fs = "[''t'' \<mapsto> ''5'']" and content = "''5''"
      and ao = "[True, True, True, True]" and writable = "\<lambda>f. f \<noteq> ''o''"] c show ?thesis by simp
qed

end
