(* ===== verification/Spec2Isabelle.thy ===== *)
theory Spec2Isabelle
  imports Alloc
begin

text \<open>
  Verification of \<open>src/Page_Replacement/page_replacement.c\<close>, a trace-driven
  simulator of page replacement. The program reads a command line
  \<open>sim <fifo|lru> <frames> <input> <output>\<close>, reads the page ids of the input
  file into a linked queue, runs one of two policies over a block of
  \<open>frames\<close> slots, and writes one line per reference and the fault rate.

  \<^bold>\<open>The parts and how they interact.\<close> \<open>main\<close> calls
  \<open>CheckAndInitialiseInput\<close>, copies the file names into \<open>char[50]\<close> buffers,
  calls \<open>ReadFileData\<close> (an \<open>fscanf("%d")\<close> loop that allocates a
  \<open>PageRequest\<close> and a \<open>Node\<close> per value and \<open>Enqueue\<close>s it) and then
  \<open>SimulateFIFO\<close> or \<open>SimulateLRU\<close>. Each simulation mallocs the frame block,
  initialises it, allocates an output queue, and loops: \<open>Dequeue\<close> a node,
  classify its id with \<open>SimContains\<close>, \<open>strcpy\<close> the label into the node's
  request, \<open>Enqueue\<close> the node on the output queue, and update the frames (FIFO:
  fill the first free slot or shift and write the last slot; LRU: count a hit,
  fill a free slot or overwrite slot 0, then \<open>SortByTimesRequested\<close>). It ends
  with \<open>PrintValues\<close> and \<open>FreeQueue\<close> on the output queue.

  \<^bold>\<open>Theories.\<close>
  \<^item> \<open>Prelude\<close>: \<open>PageReplacementAlgorithms\<close>, the \<open>PageRequest\<close> record
    \<open>page_request\<close>, the free-slot sentinel \<open>FREE = -1\<close>, shared list lemmas.
  \<^item> \<open>Frames\<close>: \<open>SimNode\<close> as the record \<open>sim_node\<close>; the malloc'd block is a
    list of them. \<open>IsSimFull\<close>, \<open>SimContains\<close>, \<open>fill_free\<close> (the first-free-slot
    loops of both simulations). The abstraction \<open>residents\<close> and the invariant
    \<open>frames_inv\<close> (occupied slots first, in insertion order, no page twice).
  \<^item> \<open>Float32\<close>: single precision on rationals: \<open>rhe\<close> (round half to even),
    the binary exponent \<open>flog2\<close>, and \<open>round_f32\<close>, the rounding every \<open>float\<close>
    operation applies (x86-64 with SSE evaluates \<open>float\<close> expressions in single
    precision).
  \<^item> \<open>Output\<close>: the labels, \<open>strcpy_fits\<close> for the 3-byte field, \<open>show_int\<close>
    for \<open>%d\<close>, the \<open>float\<close> value \<open>c_float\<close> (\<open>NaN\<close>, \<open>Inf\<close> or the rational a
    finite \<open>float\<close> denotes) with the rounded \<open>fdiv\<close> and \<open>fmul\<close>, \<open>print_line\<close>,
    \<open>print_loop\<close>, \<open>PrintValues\<close>, the \<open>%.2f\<close> rendering \<open>fmt_2f\<close> and the
    whole file \<open>PrintValues_text\<close>.
  \<^item> \<open>Fifo\<close>: \<open>fifo_shift\<close> (the shift loop), \<open>fifo_evict\<close>, \<open>fifo_step\<close> (one
    turn of the loop), \<open>fifo_loop\<close>, \<open>fifo_init\<close>, \<open>SimulateFIFO\<close>; the reference
    FIFO \<open>fifo_ref\<close>/\<open>fifo_ref_hits\<close> on the queue of residents.
  \<^item> \<open>Lru\<close>: \<open>sort_scan\<close> and \<open>SortByTimesRequested\<close>, \<open>lru_hit\<close>, \<open>lru_evict\<close>,
    \<open>lru_step\<close>, \<open>lru_loop\<close>, \<open>lru_init\<close>, \<open>SimulateLRU\<close>; the specification's
    frequency policy as the inductive \<open>freq_step\<close> on a multiset of
    (page, count) pairs, the reachable states \<open>lru_reachable\<close> and their
    invariant \<open>lru_inv\<close>.
  \<^item> \<open>Queue\<close>: the heap of \<open>Node\<close>s as a list indexed by address, \<open>ptr\<close>,
    \<open>NewQueue\<close>, \<open>NewNode\<close>, \<open>Enqueue\<close>, \<open>Dequeue\<close>, \<open>IsQueueEmpty\<close>, and
    \<open>FreeQueue\<close> over one allocation flag per node (\<open>live\<close>), with the
    abstraction \<open>path\<close>/\<open>queue_inv\<close>.
  \<^item> \<open>HeapSim\<close>: the interface \<open>policy_step\<close> that \<open>fifo_step\<close> and \<open>lru_step\<close>
    implement, the list loop \<open>sim_loop\<close>, \<open>ReadFileData\<close>'s enqueue loop
    \<open>enqueue_ids\<close>, the heap loop \<open>sim_drain\<close>, the \<open>PrintValues\<close> walk \<open>walk\<close>,
    and \<open>simulate_heap\<close>, \<open>SimulateFIFO_heap\<close>, \<open>SimulateLRU_heap\<close>.
  \<^item> \<open>Input\<close>: the \<open>%d\<close> scanner \<open>scan_int\<close>, \<open>read_ints\<close>, \<open>ReadFileData\<close> on a
    file system given as a map from names to contents, \<open>atoi\<close>, \<open>tolower_c\<close>,
    \<open>CheckAndInitialiseInput\<close>.
  \<^item> \<open>Program\<close>: \<open>main\<close>, with the ends of a run as the datatype \<open>main_error\<close>.
  \<^item> \<open>Alloc\<close>: the same functions with \<open>malloc\<close> failures: the outcomes of the
    allocations, in call order, are an input of the run, and every \<open>NULL\<close>
    check of the code is a branch (\<open>NewPageRequest_m\<close>, \<open>NewNode_m\<close>,
    \<open>NewQueue_m\<close>, \<open>read_loop_m\<close>, \<open>ReadFileData_m\<close>, \<open>simulate_m\<close>, \<open>main_m\<close>);
    the writable files are a predicate on names, and the \<open>fopen\<close> check of the
    output file at the start of \<open>PrintValues\<close> is \<open>PrintValues_open\<close>.

  \<^bold>\<open>What is proved\<close> (the claims, by number). A claim about one component
  sits at the end of that component's theory: C1 and C31 in \<open>Fifo\<close>; C2--C4,
  C26, C32 and C33 in \<open>Lru\<close>; C14 in \<open>HeapSim\<close>; C21 in \<open>Queue\<close>;
  C27--C30 in \<open>Alloc\<close>; C34 in \<open>Output\<close>. The claims that span components
  are in this theory.
  \<^item> Policies against their specifications: FIFO prints what an independent
    FIFO simulator prints (C1); what the LRU code prints is a run of the
    frequency policy (C2), it evicts a minimum count (C3) and a hit adds
    exactly one (C4); counts stay in \<open>[0, length trace]\<close> (C5); the shift loop
    is a rotation (C6).
  \<^item> Both simulations: each record is the reference, labelled \<open>HIT\<close> exactly
    when the page is in the frames before it (C7), and the first reference to
    a page is a fault (C8); with one frame they agree (C9); FIFO ignores the
    uninitialised counters (C10); the rate is in \<open>[0, 100]\<close> on every non-empty
    trace (C11); enough frames give one fault per distinct page (C12); a full
    frame set stays full and no page is resident twice (C23, C24); FIFO keeps a
    window of the last pages (C25) while the frequency policy only ever
    replaces slot 0 on new pages (C26); a FIFO hit changes no later step (C31);
    the sort brings the lowest-index minimum to slot 0 by one swap (C32); a page
    loaded into a free slot enters at count 0 (C33); the single-precision rate
    is within \<open>100/2^22\<close> of the exact percentage (C34).
  \<^item> Defects: the page id \<open>-1\<close> is taken for a free slot (C13); \<open>Dequeue\<close>
    keeps a stale tail (C15); a malformed token ends the trace (C17); \<open>atoi\<close>
    takes the numeric prefix of the frame argument (C19); the output queue's
    \<open>NewQueue\<close> is not checked (C29).
  \<^item> Heap, input and the whole program: the heap simulations return, print
    what the list models print and free every node once (C14); \<open>FreeQueue\<close>
    frees exactly a queue's nodes (C21) and always returns (C22); printing and
    reading back a trace is the identity (C16); the configuration accepts
    exactly the valid command lines (C18); \<open>main\<close> prints the simulation of the
    file's trace (C20); with allocation checks, no failure and a writable
    output file it is the same program (C27), a failed allocation while reading
    exits cleanly (C28), and an output file that cannot be opened ends the run
    in \<open>PrintValues\<close> before anything is written (C30).
  \<^item> Observed and recorded as findings, without a theorem: the \<open>"HIT"\<close> label
    overflows the 3-byte field (\<open>strcpy_fits\<close>), a file name of 50 characters
    or more overflows \<open>char[50]\<close>, and the empty trace prints the rate \<open>-nan\<close>.

  \<^bold>\<open>Fuel.\<close> The C loops over the queues have no bound. \<open>sim_drain\<close> and
  \<open>walk\<close> run on fuel one more than the number of nodes in the heap: every turn
  dequeues (or visits) a distinct node of a list without repetition, so there
  are at most that many turns, and C14 shows the fuel is never exhausted on the
  queue \<open>ReadFileData\<close> builds. \<open>FreeQueue\<close> runs on fuel one more than the
  number of allocation flags: every turn frees a live node or stops, so no list,
  cyclic or dangling, exhausts it (C22). \<open>read_ints\<close> terminates by the length
  of the rest of the input, which every conversion shortens.

  \<^bold>\<open>Not modelled.\<close> The exponent range of \<open>float\<close> (every value the
  program rounds lies between \<open>2^-31\<close> and \<open>2^31\<close>, where no overflow or
  subnormal occurs); the console messages and the exit status (each exit is a value of
  \<open>main_error\<close>; the code calls \<open>exit(0)\<close> on every one); overflow of the C
  \<open>int\<close> in \<open>fscanf\<close>, \<open>atoi\<close> and the counters (integers are unbounded; C5 bounds
  the counters by the trace length); the bytes \<open>strcpy\<close> writes past a buffer
  (the overflow is reported, not simulated); \<open>free\<close> of the queue records and of
  the frame block, and memory leaked on the exit paths, where the process ends.
\<close>

section \<open>The frequency policy\<close>

text \<open>C5: After any trace, every \<open>timesRequested\<close> of the LRU frame set lies
  between 0 and the number of references processed; so on traces shorter than
  \<open>2^31\<close> the \<open>int\<close> counter of line 300 never overflows.\<close>

theorem lru_counts_bounded:
  "\<forall>s \<in> set (fst (lru_loop (lru_init blk) trace [])).
     0 \<le> timesRequested s \<and> timesRequested s \<le> int (length trace)"
  using lru_loop_counts [of "lru_init blk" 0 trace "[]"] by (simp add: lru_init_def)

theorem lru_counts_bounded_witness:
  "fst (lru_loop (lru_init [\<lparr>sim_id = 0, timesRequested = 0\<rparr>]) [1, 1] []) =
     [\<lparr>sim_id = 1, timesRequested = 1\<rparr>] \<and>
   timesRequested (\<lparr>sim_id = 1, timesRequested = 1\<rparr> :: sim_node) \<le> int (length [1, 1 :: int])"
proof -
  have eq: "fst (lru_loop (lru_init [\<lparr>sim_id = 0, timesRequested = 0\<rparr>]) [1, 1] []) =
      [\<lparr>sim_id = 1, timesRequested = 1\<rparr>]"
    by code_simp
  show ?thesis
    using lru_counts_bounded [of "[\<lparr>sim_id = 0, timesRequested = 0\<rparr>]" "[1, 1]"] eq by simp
qed

section \<open>Properties of both simulations\<close>

text \<open>C6: The shift loop of \<open>SimulateFIFO\<close> (lines 258--262), started with the
  id of slot 0 in \<open>tempID\<close>, rotates the ids one slot towards slot 0; with the
  write into the last slot, the eviction removes the oldest id and appends the
  new page, and it leaves every \<open>timesRequested\<close> as it was.\<close>

theorem fifo_shift_is_rotation:
  "map sim_id (fifo_shift (sim_id (hd ss)) ss) = rotate1 (map sim_id ss) \<and>
   map sim_id (fifo_evict x ss) = (if ss = [] then [] else tl (map sim_id ss) @ [x]) \<and>
   map timesRequested (fifo_evict x ss) = map timesRequested ss"
proof (cases ss)
  case Nil
  then show ?thesis by (simp add: fifo_evict_def)
next
  case (Cons s rest)
  then show ?thesis using fifo_shift_rotates [of s "sim_id s" rest] fifo_evict_ids [of ss x] by simp
qed

text \<open>C7: Both simulations write one record per reference, in trace order, and
  label it \<open>HIT\<close> exactly when the page is in the frames just before the
  reference is processed (the \<open>SimContains\<close> test of lines 250 and 295), and
  \<open>PF\<close> otherwise, as specification 4 classifies a reference.\<close>

theorem outputs_classify_references:
  "snd (fifo_loop ss trace []) =
     map (\<lambda>i. \<lparr>req_id = trace ! i,
               hitOrPageFault = label_of (SimContains (fst (fifo_loop ss (take i trace) [])) (trace ! i))\<rparr>)
       [0..<length trace] \<and>
   snd (lru_loop ss trace []) =
     map (\<lambda>i. \<lparr>req_id = trace ! i,
               hitOrPageFault = label_of (SimContains (fst (lru_loop ss (take i trace) [])) (trace ! i))\<rparr>)
       [0..<length trace]"
  using sim_loop_classify [OF fifo_step_classify, of ss trace] sim_loop_classify [OF lru_step_classify, of ss trace]
  by (simp add: fifo_loop_is_sim_loop lru_loop_is_sim_loop)

text \<open>C8: From the initialised block, the first reference to a page is a fault
  under both policies: no page is found in the frames before it has been
  referenced, whatever ids the uninitialised block held.\<close>

theorem first_reference_faults:
  assumes "FREE \<notin> set trace" and "i < length trace" and "trace ! i \<notin> set (take i trace)"
  shows "hitOrPageFault (snd (fifo_loop (fifo_init blk) trace []) ! i) = PF_label \<and>
         hitOrPageFault (snd (lru_loop (lru_init blk) trace []) ! i) = PF_label"
proof -
  have x: "trace ! i \<noteq> FREE" using assms(1,2) nth_mem by metis
  have nf: "\<not> SimContains (fst (sim_loop fifo_step (fifo_init blk) (take i trace) [])) (trace ! i)"
    using sim_loop_id_set [OF fifo_step_id_set, of "fifo_init blk" "take i trace" "[]"] fifo_init_id_set [of blk]
      x assms(3) by (auto simp: SimContains_iff)
  have nl: "\<not> SimContains (fst (sim_loop lru_step (lru_init blk) (take i trace) [])) (trace ! i)"
    using sim_loop_id_set [OF lru_step_id_set, of "lru_init blk" "take i trace" "[]"] lru_init_id_set [of blk]
      x assms(3) by (auto simp: SimContains_iff)
  show ?thesis
    using sim_loop_classify [OF fifo_step_classify, of "fifo_init blk" trace]
      sim_loop_classify [OF lru_step_classify, of "lru_init blk" trace] nf nl assms(2)
    by (simp add: fifo_loop_is_sim_loop lru_loop_is_sim_loop label_of_def)
qed

theorem first_reference_faults_witness:
  "FREE \<notin> set [1, 2, 1 :: int] \<and> 1 < length [1, 2, 1 :: int] \<and> [1, 2, 1 :: int] ! 1 \<notin> set (take 1 [1, 2, 1]) \<and>
   hitOrPageFault (snd (fifo_loop (fifo_init [\<lparr>sim_id = 2, timesRequested = 5\<rparr>]) [1, 2, 1] []) ! 1) = PF_label \<and>
   hitOrPageFault (snd (lru_loop (lru_init [\<lparr>sim_id = 2, timesRequested = 5\<rparr>]) [1, 2, 1] []) ! 1) = PF_label"
proof -
  have h: "FREE \<notin> set [1, 2, 1 :: int]" "1 < length [1, 2, 1 :: int]" "[1, 2, 1 :: int] ! 1 \<notin> set (take 1 [1, 2, 1])"
    by simp_all
  from first_reference_faults [OF h, of "[\<lparr>sim_id = 2, timesRequested = 5\<rparr>]"] h show ?thesis by simp
qed

text \<open>C9: With a single frame both policies print the same thing on every trace:
  a hit exactly where the reference repeats the one before it.\<close>

theorem single_frame_policies_agree:
  "SimulateFIFO [b1] trace = SimulateLRU [b2] trace \<and>
   snd (fifo_loop (fifo_init [b1]) trace []) =
     map2 (\<lambda>p x. \<lparr>req_id = x, hitOrPageFault = label_of (p = x)\<rparr>) (FREE # trace) trace"
proof -
  have f: "snd (fifo_loop (fifo_init [b1]) trace []) =
     map2 (\<lambda>p x. \<lparr>req_id = x, hitOrPageFault = label_of (p = x)\<rparr>) (FREE # trace) trace"
    using fifo_loop_single [of "fifo_init [b1]" trace "[]"] by (simp add: fifo_init_def)
  have l: "snd (lru_loop (lru_init [b2]) trace []) =
     map2 (\<lambda>p x. \<lparr>req_id = x, hitOrPageFault = label_of (p = x)\<rparr>) (FREE # trace) trace"
    using lru_loop_single [of "lru_init [b2]" trace "[]"] by (simp add: lru_init_def)
  from f l show ?thesis by (simp add: SimulateFIFO_def SimulateLRU_def)
qed

text \<open>C10: \<open>SimulateFIFO\<close> never reads the \<open>timesRequested\<close> fields it leaves
  uninitialised: its output depends only on the number of frames.\<close>

theorem SimulateFIFO_ignores_uninitialised:
  "length blk1 = length blk2 \<Longrightarrow> SimulateFIFO blk1 trace = SimulateFIFO blk2 trace"
proof -
  assume "length blk1 = length blk2"
  then have "map sim_id (fifo_init blk1) = map sim_id (fifo_init blk2)"
    by (simp add: fifo_init_def comp_def map_replicate_const)
  from fifo_loop_ids_cong [OF this, of trace "[]"] show ?thesis by (simp add: SimulateFIFO_def)
qed

theorem SimulateFIFO_ignores_uninitialised_witness:
  "length [\<lparr>sim_id = 3, timesRequested = 8\<rparr>] = length [\<lparr>sim_id = 0, timesRequested = -5\<rparr>] \<and>
   SimulateFIFO [\<lparr>sim_id = 3, timesRequested = 8\<rparr>] [1, 2] =
   SimulateFIFO [\<lparr>sim_id = 0, timesRequested = -5\<rparr>] [1, 2]"
  using SimulateFIFO_ignores_uninitialised
    [of "[\<lparr>sim_id = 3, timesRequested = 8\<rparr>]" "[\<lparr>sim_id = 0, timesRequested = -5\<rparr>]" "[1, 2]"]
  by simp

text \<open>C11: On a non-empty trace the printed fault rate of either simulation is
  a number between 0 and 100.\<close>

theorem fault_rate_bounds:
  assumes "trace \<noteq> []"
  shows "(\<exists>r. snd (SimulateFIFO blk trace) = Fin r \<and> 0 \<le> r \<and> r \<le> 100) \<and>
         (\<exists>r. snd (SimulateLRU blk trace) = Fin r \<and> 0 \<le> r \<and> r \<le> 100)"
proof -
  have "snd (fifo_loop (fifo_init blk) trace []) \<noteq> []"
    using fifo_loop_req_ids [of "fifo_init blk" trace "[]"] assms by auto
  moreover have "snd (lru_loop (lru_init blk) trace []) \<noteq> []"
    using lru_loop_req_ids [of "lru_init blk" trace "[]"] assms by auto
  ultimately show ?thesis
    by (simp add: SimulateFIFO_def SimulateLRU_def PrintValues_rate_bounds)
qed

theorem fault_rate_bounds_witness:
  "[7 :: int] \<noteq> [] \<and>
   (\<exists>r. snd (SimulateFIFO [\<lparr>sim_id = 0, timesRequested = 0\<rparr>] [7]) = Fin r \<and> 0 \<le> r \<and> r \<le> 100) \<and>
   (\<exists>r. snd (SimulateLRU [\<lparr>sim_id = 0, timesRequested = 0\<rparr>] [7]) = Fin r \<and> 0 \<le> r \<and> r \<le> 100)"
  using fault_rate_bounds [of "[7]" "[\<lparr>sim_id = 0, timesRequested = 0\<rparr>]"] by simp

text \<open>C12: When the frames can hold every distinct page of the trace, both
  policies fault exactly once per distinct page, on its first reference, and
  never evict.\<close>

theorem enough_frames_one_fault_per_page:
  assumes "blk \<noteq> []" and "FREE \<notin> set trace" and "card (set trace) \<le> length blk"
  shows "length (filter (\<lambda>r. hitOrPageFault r = PF_label) (snd (fifo_loop (fifo_init blk) trace []))) =
           card (set trace) \<and>
         length (filter (\<lambda>r. hitOrPageFault r = PF_label) (snd (lru_loop (lru_init blk) trace []))) =
           card (set trace)"
proof -
  from assms(1) have ne: "fifo_init blk \<noteq> []" by (simp add: fifo_init_def)
  have "snd (fifo_loop (fifo_init blk) trace []) =
          map2 (\<lambda>x h. \<lparr>req_id = x, hitOrPageFault = label_of h\<rparr>) trace (fifo_ref_hits (length blk) [] trace)"
    using fifo_loop_refines [OF fifo_init_inv ne assms(2), of "[]"] by (simp add: fifo_init_residents)
  moreover have "length (filter Not (fifo_ref_hits (length blk) [] trace)) = card (set trace)"
    using fifo_ref_faults_no_eviction [of "[]" trace "length blk"] assms(3) by simp
  moreover have "length (filter (\<lambda>r. hitOrPageFault r = PF_label)
      (map2 (\<lambda>x h. \<lparr>req_id = x, hitOrPageFault = label_of h\<rparr>) trace (fifo_ref_hits (length blk) [] trace))) =
      length (filter Not (fifo_ref_hits (length blk) [] trace))"
    by (rule faults_map2_label_of) simp
  ultimately have f: "length (filter (\<lambda>r. hitOrPageFault r = PF_label) (snd (fifo_loop (fifo_init blk) trace []))) =
           card (set trace)" by simp
  have r: "lru_reachable (lru_init blk)" using assms(1) by (rule lru_reachable.init)
  have res: "set (residents (lru_init blk)) = {}" using lru_init_slots [of blk] fst_slots [of "lru_init blk"] by simp
  have "length (lru_init blk) = length blk" by (simp add: lru_init_def)
  with lru_loop_faults_no_eviction [OF r assms(2), of "[]"] res assms(3)
  have "length (filter (\<lambda>r. hitOrPageFault r = PF_label) (snd (lru_loop (lru_init blk) trace []))) =
           card (set trace)" by simp
  with f show ?thesis by simp
qed

theorem enough_frames_one_fault_per_page_witness:
  "[\<lparr>sim_id = 0, timesRequested = 0\<rparr>, \<lparr>sim_id = 0, timesRequested = 0\<rparr>] \<noteq> [] \<and>
   FREE \<notin> set [1, 2, 1, 2 :: int] \<and>
   card (set [1, 2, 1, 2 :: int]) \<le> length [\<lparr>sim_id = 0, timesRequested = 0\<rparr>, \<lparr>sim_id = 0, timesRequested = 0\<rparr>] \<and>
   length (filter (\<lambda>r. hitOrPageFault r = PF_label)
     (snd (fifo_loop (fifo_init [\<lparr>sim_id = 0, timesRequested = 0\<rparr>, \<lparr>sim_id = 0, timesRequested = 0\<rparr>])
        [1, 2, 1, 2] []))) = 2"
proof -
  have "set [1, 2, 1, 2 :: int] = {1, 2}" by auto
  then have c: "card (set [1, 2, 1, 2 :: int]) = 2" by simp
  have "length (filter (\<lambda>r. hitOrPageFault r = PF_label)
     (snd (fifo_loop (fifo_init [\<lparr>sim_id = 0, timesRequested = 0\<rparr>, \<lparr>sim_id = 0, timesRequested = 0\<rparr>])
        [1, 2, 1, 2] []))) = card (set [1, 2, 1, 2 :: int])"
    using enough_frames_one_fault_per_page
      [of "[\<lparr>sim_id = 0, timesRequested = 0\<rparr>, \<lparr>sim_id = 0, timesRequested = 0\<rparr>]" "[1, 2, 1, 2]"]
    by (simp only: c) simp
  with c show ?thesis by simp
qed

section \<open>Defects\<close>

text \<open>C13: The free-slot sentinel is an ordinary page id. On a reference to page
  \<open>-1\<close>, which \<open>fscanf("%d")\<close> accepts, while a slot is free, both simulations
  report a hit for a page that was never loaded.\<close>

theorem sentinel_page_hits:
  "blk \<noteq> [] \<Longrightarrow>
   hitOrPageFault (snd (fifo_step (fifo_init blk) (-1))) = HIT_label \<and>
   hitOrPageFault (snd (lru_step (lru_init blk) (-1))) = HIT_label"
  by (cases blk) (simp_all add: fifo_step_def lru_step_def fifo_init_def lru_init_def SimContains_iff)

theorem sentinel_page_hits_witness:
  "[\<lparr>sim_id = 4, timesRequested = 2\<rparr>] \<noteq> [] \<and>
   hitOrPageFault (snd (fifo_step (fifo_init [\<lparr>sim_id = 4, timesRequested = 2\<rparr>]) (-1))) = HIT_label \<and>
   hitOrPageFault (snd (lru_step (lru_init [\<lparr>sim_id = 4, timesRequested = 2\<rparr>]) (-1))) = HIT_label"
  using sentinel_page_hits [of "[\<lparr>sim_id = 4, timesRequested = 2\<rparr>]"] by simp

section \<open>The linked queues\<close>

text \<open>C15: \<open>Dequeue\<close> does not reset \<open>tail\<close> when it removes the last node. On a
  queue emptied that way, \<open>Enqueue\<close> links the new node behind the stale tail and
  leaves \<open>head\<close> at \<open>NULL\<close>: the queue reports empty and the node is never
  dequeued, where a queue must then hold exactly that node.\<close>

theorem dequeue_last_loses_next_node:
  assumes "queue_inv hp q [a]" and "Dequeue hp q = (hp1, q1, p)"
    and "Enqueue hp1 q1 (Ref b) = (hp2, q2)"
  shows "IsQueueEmpty q2 \<and> tail q2 = Ref b \<and> \<not> queue_inv hp2 q2 [b]"
proof -
  from assms(1) have pth: "path hp (head q) [a] NULL" and tl: "tail q = Ref a"
    by (auto simp: queue_inv_def)
  from Dequeue_spec [OF pth _ assms(2)] have "head q1 = NULL" "tail q1 = Ref a" using tl by auto
  with assms(3) have "head q2 = NULL" "tail q2 = Ref b" by (auto simp: Enqueue_def)
  then show ?thesis by (simp add: IsQueueEmpty_def queue_inv_def)
qed

theorem dequeue_last_loses_next_node_witness:
  "queue_inv [\<lparr>item = \<lparr>req_id = 1, hitOrPageFault = []\<rparr>, next_ptr = NULL\<rparr>,
              \<lparr>item = \<lparr>req_id = 2, hitOrPageFault = []\<rparr>, next_ptr = NULL\<rparr>]
     \<lparr>head = Ref 0, tail = Ref 0\<rparr> [0] \<and>
   Dequeue [\<lparr>item = \<lparr>req_id = 1, hitOrPageFault = []\<rparr>, next_ptr = NULL\<rparr>,
            \<lparr>item = \<lparr>req_id = 2, hitOrPageFault = []\<rparr>, next_ptr = NULL\<rparr>]
     \<lparr>head = Ref 0, tail = Ref 0\<rparr> =
     ([\<lparr>item = \<lparr>req_id = 1, hitOrPageFault = []\<rparr>, next_ptr = NULL\<rparr>,
       \<lparr>item = \<lparr>req_id = 2, hitOrPageFault = []\<rparr>, next_ptr = NULL\<rparr>],
      \<lparr>head = NULL, tail = Ref 0\<rparr>, Ref 0) \<and>
   Enqueue [\<lparr>item = \<lparr>req_id = 1, hitOrPageFault = []\<rparr>, next_ptr = NULL\<rparr>,
            \<lparr>item = \<lparr>req_id = 2, hitOrPageFault = []\<rparr>, next_ptr = NULL\<rparr>]
     \<lparr>head = NULL, tail = Ref 0\<rparr> (Ref 1) =
     ([\<lparr>item = \<lparr>req_id = 1, hitOrPageFault = []\<rparr>, next_ptr = Ref 1\<rparr>,
       \<lparr>item = \<lparr>req_id = 2, hitOrPageFault = []\<rparr>, next_ptr = NULL\<rparr>],
      \<lparr>head = NULL, tail = Ref 1\<rparr>) \<and>
   IsQueueEmpty \<lparr>head = NULL, tail = Ref 1\<rparr>"
proof -
  let ?hp = "[\<lparr>item = \<lparr>req_id = 1, hitOrPageFault = []\<rparr>, next_ptr = NULL\<rparr>,
              \<lparr>item = \<lparr>req_id = 2, hitOrPageFault = []\<rparr>, next_ptr = NULL\<rparr>]"
  have i: "queue_inv ?hp \<lparr>head = Ref 0, tail = Ref 0\<rparr> [0]" by (simp add: queue_inv_def)
  have d: "Dequeue ?hp \<lparr>head = Ref 0, tail = Ref 0\<rparr> = (?hp, \<lparr>head = NULL, tail = Ref 0\<rparr>, Ref 0)"
    by (simp add: Dequeue_def set_next.simps(2))
  have e: "Enqueue ?hp \<lparr>head = NULL, tail = Ref 0\<rparr> (Ref 1) =
     ([\<lparr>item = \<lparr>req_id = 1, hitOrPageFault = []\<rparr>, next_ptr = Ref 1\<rparr>,
       \<lparr>item = \<lparr>req_id = 2, hitOrPageFault = []\<rparr>, next_ptr = NULL\<rparr>],
      \<lparr>head = NULL, tail = Ref 1\<rparr>)"
    by (simp add: Enqueue_def set_next.simps(2))
  from dequeue_last_loses_next_node [OF i d e] i d e show ?thesis by simp
qed

section \<open>Reading the trace and the command line\<close>

text \<open>C16: A trace file written one integer per line in \<open>%d\<close> format, as
  \<open>fprintf\<close> prints ids, is read back by \<open>ReadFileData\<close>'s \<open>fscanf("%d")\<close> loop
  as exactly the list of those integers.\<close>

theorem read_ints_roundtrip:
  "read_ints (concat (map (\<lambda>i. show_int i @ [CHR 0x0A]) xs)) = xs"
  using read_ints_print_append [of xs "[]"] by (simp add: read_ints_Nil)

text \<open>C17: A token that is not a number ends the trace: after any trace written
  one integer per line, a character that is not white space, a sign or a digit
  makes \<open>fscanf\<close> return 0 and the loop stop, so everything after it is dropped,
  where specification 6 says malformed tokens are skipped.\<close>

theorem malformed_token_ends_trace:
  assumes "\<not> isspace_c c" and "\<not> isdigit_c c" and "c \<noteq> CHR ''+''" and "c \<noteq> CHR ''-''"
  shows "read_ints (concat (map (\<lambda>i. show_int i @ [CHR 0x0A]) xs) @ c # rest) = xs"
  using read_ints_print_append [of xs "c # rest"] read_ints_stop [OF assms] by simp

theorem malformed_token_ends_trace_witness:
  "\<not> isspace_c (CHR ''x'') \<and> \<not> isdigit_c (CHR ''x'') \<and> CHR ''x'' \<noteq> CHR ''+'' \<and> CHR ''x'' \<noteq> CHR ''-'' \<and>
   read_ints (concat (map (\<lambda>i. show_int i @ [CHR 0x0A]) [1, 2]) @ CHR ''x'' # ''3 4'') = [1, 2]"
proof -
  have h: "\<not> isspace_c (CHR ''x'')" "\<not> isdigit_c (CHR ''x'')" "CHR ''x'' \<noteq> CHR ''+''" "CHR ''x'' \<noteq> CHR ''-''"
    by (simp_all add: isspace_c_def isdigit_c_def)
  from malformed_token_ends_trace [OF h, of "[1, 2]" "''3 4''"] h show ?thesis by simp
qed

text \<open>C18: Only a validated configuration reaches a simulation: when
  \<open>CheckAndInitialiseInput\<close> accepts, there are exactly four arguments, the frame
  count is at least 1, and the lower-cased name is \<open>fifo\<close> or \<open>lru\<close>, selecting
  that policy.\<close>

theorem config_accepts_only_valid:
  assumes "CheckAndInitialiseInput argv = Inr (alg, totalFrames)"
  shows "length argv = 5 \<and> 1 \<le> totalFrames \<and> totalFrames = atoi (argv ! 2) \<and>
         (map tolower_c (argv ! 1) = ''fifo'' \<and> alg = FIFO \<or>
          map tolower_c (argv ! 1) = ''lru'' \<and> alg = LRU)"
  using assms by (auto simp: CheckAndInitialiseInput_def Let_def split: if_splits)

theorem config_accepts_only_valid_witness:
  "CheckAndInitialiseInput [''sim'', ''LrU'', ''4'', ''in.txt'', ''out.txt''] = Inr (LRU, 4) \<and>
   length [''sim'', ''LrU'', ''4'', ''in.txt'', ''out.txt''] = 5 \<and> (1::int) \<le> 4 \<and>
   map tolower_c ''LrU'' = ''lru''"
proof -
  have c: "CheckAndInitialiseInput [''sim'', ''LrU'', ''4'', ''in.txt'', ''out.txt''] = Inr (LRU, 4)"
    by code_simp
  from config_accepts_only_valid [OF c] c show ?thesis by simp
qed

text \<open>C19: The frame count is read with \<open>atoi\<close>, which stops at the first
  non-digit: any frame argument made of a number followed by other characters
  (\<open>"3frames"\<close>) is read as that number, and the configuration is the one the
  number alone gives.\<close>

theorem config_atoi_prefix:
  assumes "\<not> isdigit_c c"
  shows "atoi (show_int n @ c # s) = n \<and>
         CheckAndInitialiseInput [p, a, show_int n @ c # s, fi, fo] =
           CheckAndInitialiseInput [p, a, show_int n, fi, fo]"
proof -
  have 1: "atoi (show_int n @ c # s) = n"
    using scan_show_int_append [of "c # s" n] assms by (simp add: atoi_def)
  have 2: "atoi (show_int n) = n"
    using scan_show_int_append [of "[]" n] by (simp add: atoi_def)
  show ?thesis using 1 2 by (simp add: CheckAndInitialiseInput_def)
qed

theorem config_atoi_prefix_witness:
  "\<not> isdigit_c (CHR ''f'') \<and> atoi (show_int 3 @ CHR ''f'' # ''rames'') = 3 \<and>
   CheckAndInitialiseInput [''sim'', ''FIFO'', show_int 3 @ CHR ''f'' # ''rames'', ''in'', ''out''] =
     CheckAndInitialiseInput [''sim'', ''FIFO'', show_int 3, ''in'', ''out'']"
proof -
  have h: "\<not> isdigit_c (CHR ''f'')" by (simp add: isdigit_c_def)
  from config_atoi_prefix [OF h, of 3 "''rames''" "''sim''" "''FIFO''" "''in''" "''out''"] h show ?thesis by simp
qed

section \<open>The whole program\<close>

text \<open>C20: For a valid command line with file names shorter than the 50-byte
  buffers and a readable input file, \<open>main\<close> writes to the named output file
  exactly what \<open>SimulateFIFO\<close> or \<open>SimulateLRU\<close> prints for the trace read from the
  input file with the configured number of frames.\<close>

theorem main_end_to_end:
  assumes "CheckAndInitialiseInput argv = Inr (alg, totalFrames)"
    and "length (argv ! 3) < 50" and "length (argv ! 4) < 50" and "fs (argv ! 3) = Some txt"
  shows "main argv fs =
           Inr (argv ! 4,
                (case alg of
                   FIFO \<Rightarrow> SimulateFIFO (replicate (nat totalFrames) \<lparr>sim_id = 0, timesRequested = 0\<rparr>) (read_ints txt)
                 | LRU \<Rightarrow> SimulateLRU (replicate (nat totalFrames) \<lparr>sim_id = 0, timesRequested = 0\<rparr>) (read_ints txt)))"
proof -
  obtain hp q where e: "enqueue_ids [] NewQueue (read_ints txt) = (hp, q)"
    by (cases "enqueue_ids [] NewQueue (read_ints txt)")
  let ?blk = "replicate (nat totalFrames) \<lparr>sim_id = 0, timesRequested = 0\<rparr>"
  let ?lv = "replicate (length hp) True"
  have f: "SimulateFIFO_heap hp ?lv q ?blk = Some (SimulateFIFO ?blk (read_ints txt), Inr (replicate (length hp) False))"
    using simulate_heap_spec [OF e, of fifo_step "fifo_init ?blk"]
    by (simp add: SimulateFIFO_heap_def SimulateFIFO_def fifo_loop_is_sim_loop)
  have l: "SimulateLRU_heap hp ?lv q ?blk = Some (SimulateLRU ?blk (read_ints txt), Inr (replicate (length hp) False))"
    using simulate_heap_spec [OF e, of lru_step "lru_init ?blk"]
    by (simp add: SimulateLRU_heap_def SimulateLRU_def lru_loop_is_sim_loop)
  have r: "ReadFileData fs (argv ! 3) = Some (hp, q)" using assms(4) e by (simp add: ReadFileData_def)
  show ?thesis
    using assms(1-3) r f l
    by (cases alg) (simp_all add: main_def strcpy_fits_def file_name_size_def)
qed

theorem main_end_to_end_witness:
  "CheckAndInitialiseInput [''sim'', ''fifo'', ''1'', ''t'', ''o''] = Inr (FIFO, 1) \<and>
   length ([''sim'', ''fifo'', ''1'', ''t'', ''o''] ! 3) < 50 \<and>
   length ([''sim'', ''fifo'', ''1'', ''t'', ''o''] ! 4) < 50 \<and>
   [''t'' \<mapsto> ''5 5''] ([''sim'', ''fifo'', ''1'', ''t'', ''o''] ! 3) = Some ''5 5'' \<and>
   main [''sim'', ''fifo'', ''1'', ''t'', ''o''] [''t'' \<mapsto> ''5 5''] =
     Inr (''o'', SimulateFIFO [\<lparr>sim_id = 0, timesRequested = 0\<rparr>] [5, 5])"
proof -
  have c: "CheckAndInitialiseInput [''sim'', ''fifo'', ''1'', ''t'', ''o''] = Inr (FIFO, 1)" by code_simp
  have r: "read_ints ''5 5'' = [5, 5]" by code_simp
  from main_end_to_end [OF c, of "[''t'' \<mapsto> ''5 5'']" "''5 5''"] c r show ?thesis by simp
qed

section \<open>Freeing the output queue\<close>

text \<open>C22: \<open>FreeQueue\<close> returns on every heap, every queue and every allocation
  state, a cyclic or dangling list included: each turn either stops or frees a
  node that was allocated, so the fuel of one more than the number of flags is
  never exhausted.\<close>

theorem FreeQueue_terminates: "FreeQueue hp lv q \<noteq> None"
proof -
  have "length (filter (\<lambda>l. l) lv) < Suc (length lv)" by (simp add: le_imp_less_Suc length_filter_le)
  then show ?thesis unfolding FreeQueue_def by (rule FreeQueue_loop_returns)
qed

section \<open>Invariants of the frame set\<close>

text \<open>C23: A full frame set stays full under both policies, whatever pages follow
  (no page is removed without a replacement), and the frame set keeps its
  size.\<close>

theorem frames_stay_full:
  assumes "FREE \<notin> set xs" and "IsSimFull ss"
  shows "IsSimFull (fst (fifo_loop ss xs out)) \<and> IsSimFull (fst (lru_loop ss xs out)) \<and>
         length (fst (fifo_loop ss xs out)) = length ss \<and> length (fst (lru_loop ss xs out)) = length ss"
proof -
  have "IsSimFull (fst (sim_loop fifo_step ss xs out))"
    using fifo_step_full assms(2,1) by (rule sim_loop_keeps)
  moreover have "IsSimFull (fst (sim_loop lru_step ss xs out))"
    using lru_step_full assms(2,1) by (rule sim_loop_keeps)
  moreover have "length (fst (sim_loop fifo_step ss xs out)) = length ss"
    by (rule sim_loop_keeps [where P = "\<lambda>ss'. length ss' = length ss"]) (simp_all add: assms(1))
  moreover have "length (fst (sim_loop lru_step ss xs out)) = length ss"
    by (rule sim_loop_keeps [where P = "\<lambda>ss'. length ss' = length ss"]) (simp_all add: assms(1))
  ultimately show ?thesis by (simp add: fifo_loop_is_sim_loop lru_loop_is_sim_loop)
qed

theorem frames_stay_full_witness:
  "FREE \<notin> set [2 :: int] \<and> IsSimFull [\<lparr>sim_id = 1, timesRequested = 0\<rparr>] \<and>
   IsSimFull (fst (fifo_loop [\<lparr>sim_id = 1, timesRequested = 0\<rparr>] [2] [])) \<and>
   IsSimFull (fst (lru_loop [\<lparr>sim_id = 1, timesRequested = 0\<rparr>] [2] []))"
  using frames_stay_full [of "[2]" "[\<lparr>sim_id = 1, timesRequested = 0\<rparr>]" "[]"] by simp

text \<open>C24: From the initialised block, at every point of either run no page is
  resident in two frames and the frame set has the configured size.\<close>

theorem residents_distinct:
  assumes "blk \<noteq> []" and "FREE \<notin> set xs"
  shows "distinct (residents (fst (fifo_loop (fifo_init blk) xs []))) \<and>
         distinct (residents (fst (lru_loop (lru_init blk) xs []))) \<and>
         length (fst (fifo_loop (fifo_init blk) xs [])) = length blk \<and>
         length (fst (lru_loop (lru_init blk) xs [])) = length blk"
proof -
  from assms(1) have ne: "fifo_init blk \<noteq> []" by (simp add: fifo_init_def)
  have "frames_inv (fst (fifo_loop (fifo_init blk) xs []))"
    using fifo_loop_refines [OF fifo_init_inv ne assms(2), of "[]"] by simp
  moreover have "lru_inv (fst (lru_loop (lru_init blk) xs []))"
    using lru_reachable_inv [OF lru_loop_reachable [OF lru_reachable.init [OF assms(1)] assms(2)]] by simp
  moreover have "length (fst (sim_loop fifo_step (fifo_init blk) xs [])) = length blk"
    by (rule sim_loop_keeps [where P = "\<lambda>ss'. length ss' = length blk"]) (simp_all add: assms(2))
  moreover have "length (fst (sim_loop lru_step (lru_init blk) xs [])) = length blk"
    by (rule sim_loop_keeps [where P = "\<lambda>ss'. length ss' = length blk"]) (simp_all add: assms(2) lru_init_def)
  ultimately show ?thesis
    by (simp add: frames_inv_def lru_inv_def fifo_loop_is_sim_loop lru_loop_is_sim_loop)
qed

theorem residents_distinct_witness:
  "[\<lparr>sim_id = 0, timesRequested = 0\<rparr>] \<noteq> [] \<and> FREE \<notin> set [1, 2, 1 :: int] \<and>
   distinct (residents (fst (fifo_loop (fifo_init [\<lparr>sim_id = 0, timesRequested = 0\<rparr>]) [1, 2, 1] []))) \<and>
   distinct (residents (fst (lru_loop (lru_init [\<lparr>sim_id = 0, timesRequested = 0\<rparr>]) [1, 2, 1] [])))"
  using residents_distinct [of "[\<lparr>sim_id = 0, timesRequested = 0\<rparr>]" "[1, 2, 1]"] by simp

section \<open>Eviction order on new pages\<close>

text \<open>C25: Under FIFO, on pages that are all new and distinct, the frames hold the
  last pages requested, as many as there are frames: every resident page is
  evicted once enough new pages have arrived, oldest first, and a page that
  has had \<open>n - 1\<close> newer pages after it is the next to go.\<close>

theorem fifo_window:
  assumes "frames_inv ss" and "ss \<noteq> []" and "FREE \<notin> set xs" and "distinct (residents ss @ xs)"
  shows "residents (fst (fifo_loop ss xs out)) =
           drop (length (residents ss) + length xs - length ss) (residents ss @ xs)"
proof -
  have "residents (fst (fifo_loop ss xs out)) = fold (\<lambda>x q. fifo_ref (length ss) q x) xs (residents ss)"
    using fifo_loop_refines [OF assms(1-3)] by simp
  also have "\<dots> = drop (length (residents ss) + length xs - length ss) (residents ss @ xs)"
    using assms(2,4) length_residents_le [of ss] by (intro fifo_ref_window) simp_all
  finally show ?thesis .
qed

theorem fifo_window_witness:
  "frames_inv (fifo_init [\<lparr>sim_id = 0, timesRequested = 0\<rparr>, \<lparr>sim_id = 0, timesRequested = 0\<rparr>]) \<and>
   fifo_init [\<lparr>sim_id = 0, timesRequested = 0\<rparr>, \<lparr>sim_id = 0, timesRequested = 0\<rparr>] \<noteq> [] \<and>
   FREE \<notin> set [1, 2, 3 :: int] \<and>
   distinct (residents (fifo_init [\<lparr>sim_id = 0, timesRequested = 0\<rparr>, \<lparr>sim_id = 0, timesRequested = 0\<rparr>]) @ [1, 2, 3]) \<and>
   residents (fst (fifo_loop (fifo_init [\<lparr>sim_id = 0, timesRequested = 0\<rparr>, \<lparr>sim_id = 0, timesRequested = 0\<rparr>])
     [1, 2, 3] [])) = [2, 3]"
proof -
  have i: "frames_inv (fifo_init [\<lparr>sim_id = 0, timesRequested = 0\<rparr>, \<lparr>sim_id = 0, timesRequested = 0\<rparr>])"
    by (rule fifo_init_inv)
  have r: "residents (fifo_init [\<lparr>sim_id = 0, timesRequested = 0\<rparr>, \<lparr>sim_id = 0, timesRequested = 0\<rparr>]) = []"
    by (rule fifo_init_residents)
  from fifo_window [OF i, of "[1, 2, 3]" "[]"] i r show ?thesis by (simp add: fifo_init_def)
qed

end
